theory Spec2Isabelle
  imports Complex_Main "HOL-Library.Log_Nat"
begin

section \<open>ECMAScript numbers\<close>

text \<open>
  Every \<open>number\<close> of the source is an IEEE 754 binary64 value.  A finite double is
  represented by the rational it denotes; the two infinities and NaN are separate
  constructors.  Negative zero is identified with zero: it compares equal to zero, prints
  as \<open>0\<close>, and no computation below divides by a zero that was produced with a sign.

  Arithmetic is exact arithmetic on the rationals followed by one rounding to the nearest
  double, ties to the even significand (\<open>round64\<close>), as IEEE 754 and ECMA-262 prescribe.
\<close>

datatype number = NaN | NegInf | Fin rat | PosInf

definition rne :: "rat \<Rightarrow> int" where
  \<comment> \<open>nearest integer, ties to even\<close>
  "rne x = (let f = \<lfloor>x\<rfloor>; d = x - of_int f
            in if d < 1 / 2 then f
               else if 1 / 2 < d then f + 1
               else if even f then f else f + 1)"

definition ilog2 :: "rat \<Rightarrow> int" where
  \<comment> \<open>for \<open>0 < x\<close>: the exponent \<open>e\<close> with \<open>2 powi e \<le> x < 2 powi (e + 1)\<close>\<close>
  "ilog2 x = (if 1 \<le> x then bitlen \<lfloor>x\<rfloor> - 1 else - bitlen (\<lceil>1 / x\<rceil> - 1))"

definition ulp_exp :: "rat \<Rightarrow> int" where
  \<comment> \<open>exponent of the unit in the last place: 53 significant bits, minimal exponent -1022\<close>
  "ulp_exp x = max (ilog2 \<bar>x\<bar>) (- 1022) - 52"

definition rnd :: "rat \<Rightarrow> rat" where
  \<comment> \<open>nearest binary64 value, exponent range unbounded above\<close>
  "rnd x = (if x = 0 then 0
            else let u = 2 powi ulp_exp x in of_int (rne (x / u)) * u)"

definition round64 :: "rat \<Rightarrow> number" where
  \<comment> \<open>a result whose rounding reaches \<open>2 ^ 1024\<close> overflows to an infinity\<close>
  "round64 x = (let y = rnd x
                in if 2 ^ 1024 \<le> y then PosInf
                   else if y \<le> - (2 ^ 1024) then NegInf
                   else Fin y)"

fun fneg :: "number \<Rightarrow> number" where
  "fneg NaN = NaN"
| "fneg NegInf = PosInf"
| "fneg PosInf = NegInf"
| "fneg (Fin a) = Fin (- a)"

fun fadd :: "number \<Rightarrow> number \<Rightarrow> number" where
  "fadd (Fin a) (Fin b) = round64 (a + b)"
| "fadd NaN _ = NaN"
| "fadd _ NaN = NaN"
| "fadd PosInf NegInf = NaN"
| "fadd NegInf PosInf = NaN"
| "fadd PosInf _ = PosInf"
| "fadd _ PosInf = PosInf"
| "fadd NegInf _ = NegInf"
| "fadd _ NegInf = NegInf"

definition fsub :: "number \<Rightarrow> number \<Rightarrow> number" where
  "fsub a b = fadd a (fneg b)"

fun fmul :: "number \<Rightarrow> number \<Rightarrow> number" where
  "fmul (Fin a) (Fin b) = round64 (a * b)"
| "fmul NaN _ = NaN"
| "fmul _ NaN = NaN"
| "fmul PosInf (Fin b) = (if b = 0 then NaN else if 0 < b then PosInf else NegInf)"
| "fmul NegInf (Fin b) = (if b = 0 then NaN else if 0 < b then NegInf else PosInf)"
| "fmul (Fin a) PosInf = (if a = 0 then NaN else if 0 < a then PosInf else NegInf)"
| "fmul (Fin a) NegInf = (if a = 0 then NaN else if 0 < a then NegInf else PosInf)"
| "fmul PosInf PosInf = PosInf"
| "fmul NegInf NegInf = PosInf"
| "fmul PosInf NegInf = NegInf"
| "fmul NegInf PosInf = NegInf"

fun fdiv :: "number \<Rightarrow> number \<Rightarrow> number" where
  "fdiv (Fin a) (Fin b) =
     (if b = 0 then (if a = 0 then NaN else if 0 < a then PosInf else NegInf)
      else round64 (a / b))"
| "fdiv NaN _ = NaN"
| "fdiv _ NaN = NaN"
| "fdiv (Fin a) PosInf = Fin 0"
| "fdiv (Fin a) NegInf = Fin 0"
| "fdiv PosInf (Fin b) = (if 0 \<le> b then PosInf else NegInf)"
| "fdiv NegInf (Fin b) = (if 0 \<le> b then NegInf else PosInf)"
| "fdiv PosInf PosInf = NaN"
| "fdiv PosInf NegInf = NaN"
| "fdiv NegInf PosInf = NaN"
| "fdiv NegInf NegInf = NaN"

fun num_le :: "number \<Rightarrow> number \<Rightarrow> bool" where
  \<comment> \<open>the operator \<open><=\<close>: false as soon as one side is NaN\<close>
  "num_le NaN _ = False"
| "num_le _ NaN = False"
| "num_le NegInf _ = True"
| "num_le _ PosInf = True"
| "num_le (Fin a) (Fin b) = (a \<le> b)"
| "num_le (Fin a) NegInf = False"
| "num_le PosInf _ = False"

definition mathMin :: "number \<Rightarrow> number \<Rightarrow> number" where
  "mathMin a b = (if a = NaN \<or> b = NaN then NaN else if num_le a b then a else b)"

definition mathMax2 :: "number \<Rightarrow> number \<Rightarrow> number" where
  "mathMax2 a b = (if a = NaN \<or> b = NaN then NaN else if num_le a b then b else a)"

definition mathMax :: "number list \<Rightarrow> number" where
  \<comment> \<open>\<open>Math.max(...args)\<close>: the fold starts from \<open>-Infinity\<close>\<close>
  "mathMax args = foldl mathMax2 NegInf args"

fun mathRound :: "number \<Rightarrow> number" where
  \<comment> \<open>nearest integer, a tie goes up\<close>
  "mathRound (Fin a) = Fin (of_int \<lfloor>a + 1 / 2\<rfloor>)"
| "mathRound v = v"

fun mathFloor :: "number \<Rightarrow> number" where
  "mathFloor (Fin a) = Fin (of_int \<lfloor>a\<rfloor>)"
| "mathFloor v = v"

fun mathCeil :: "number \<Rightarrow> number" where
  "mathCeil (Fin a) = Fin (of_int \<lceil>a\<rceil>)"
| "mathCeil v = v"

definition lit :: "rat \<Rightarrow> number" where
  \<comment> \<open>a decimal literal of the source denotes the nearest double\<close>
  "lit x = round64 x"

subsection \<open>Numbers as text\<close>

definition digitChar :: "nat \<Rightarrow> char" where
  "digitChar n = ''0123456789'' ! (n mod 10)"

fun showNat :: "nat \<Rightarrow> string" where
  "showNat n = (if n < 10 then [digitChar n] else showNat (n div 10) @ [digitChar n])"

declare showNat.simps [simp del]

definition showInt :: "int \<Rightarrow> string" where
  "showInt k = (if k < 0 then CHR ''-'' # showNat (nat (- k)) else showNat (nat k))"

fun numberToString :: "number \<Rightarrow> string" where
  \<comment> \<open>the conversion a template literal applies; used on the integral results of
      \<open>Math.round\<close> only, which print as plain decimals below \<open>10 ^ 21\<close>\<close>
  "numberToString NaN = ''NaN''"
| "numberToString PosInf = ''Infinity''"
| "numberToString NegInf = ''-Infinity''"
| "numberToString (Fin a) = showInt \<lfloor>a\<rfloor>"

subsection \<open>\<open>parseInt(s, 16)\<close> and \<open>substring\<close>\<close>

definition isWhiteSpace :: "char \<Rightarrow> bool" where
  \<comment> \<open>TAB, LF, VT, FF, CR, SP, NBSP\<close>
  "isWhiteSpace c = (of_char c \<in> {9, 10, 11, 12, 13, 32, 160 :: nat})"

definition hexVal :: "char \<Rightarrow> nat option" where
  "hexVal c = (let n = (of_char c :: nat)
               in if 48 \<le> n \<and> n \<le> 57 then Some (n - 48)
                  else if 65 \<le> n \<and> n \<le> 70 then Some (n - 55)
                  else if 97 \<le> n \<and> n \<le> 102 then Some (n - 87)
                  else None)"

definition isHexDigit :: "char \<Rightarrow> bool" where
  "isHexDigit c = (hexVal c \<noteq> None)"

definition hexDigitValue :: "char \<Rightarrow> nat" where
  "hexDigitValue c = (case hexVal c of Some d \<Rightarrow> d | None \<Rightarrow> 0)"

definition hexToNat :: "string \<Rightarrow> nat" where
  "hexToNat z = foldl (\<lambda>acc c. 16 * acc + hexDigitValue c) 0 z"

definition parseInt16 :: "string \<Rightarrow> number" where
  \<comment> \<open>ECMA-262 \<open>parseInt\<close> with radix 16: skip white space, read a sign, strip one
      \<open>0x\<close> prefix, take the longest prefix of hexadecimal digits; NaN when it is empty\<close>
  "parseInt16 str =
     (let s = dropWhile isWhiteSpace str;
          sign = (if take 1 s = ''-'' then - 1 else 1 :: int);
          s1 = (if take 1 s = ''+'' \<or> take 1 s = ''-'' then drop 1 s else s);
          s2 = (if take 2 s1 = ''0x'' \<or> take 2 s1 = ''0X'' then drop 2 s1 else s1);
          z = takeWhile isHexDigit s2
      in if z = [] then NaN else round64 (of_int (sign * int (hexToNat z))))"

definition substring :: "string \<Rightarrow> nat \<Rightarrow> nat \<Rightarrow> string" where
  \<comment> \<open>\<open>s.substring(a, b)\<close>: the arguments are swapped when \<open>b < a\<close>, and clipped\<close>
  "substring s a b = take (max a b - min a b) (drop (min a b) s)"

section \<open>The colour utility\<close>

definition mix :: "number \<Rightarrow> number \<Rightarrow> number" where
  "mix intensity channel =
     mathRound (fsub (Fin 255) (fmul (fsub (Fin 255) channel) intensity))"

definition rgbString :: "number \<Rightarrow> number \<Rightarrow> number \<Rightarrow> string" where
  "rgbString r g b =
     ''rgb('' @ numberToString r @ '', '' @ numberToString g @ '', '' @ numberToString b @ '')''"

definition shadeColor :: "string \<Rightarrow> number \<Rightarrow> string" where
  "shadeColor color intensity =
     (let r = parseInt16 (substring color 1 3);
          g = parseInt16 (substring color 3 5);
          b = parseInt16 (substring color 5 7)
      in rgbString (mix intensity r) (mix intensity g) (mix intensity b))"

definition intensityOf :: "number \<Rightarrow> number \<Rightarrow> number" where
  \<comment> \<open>\<open>Math.min(0.35 + 0.9 * (count / maxCount), 1)\<close>\<close>
  "intensityOf count maxCount =
     mathMin (fadd (lit (35 / 100)) (fmul (lit (9 / 10)) (fdiv count maxCount))) (Fin 1)"

definition getColorForCount :: "number \<Rightarrow> string \<Rightarrow> number \<Rightarrow> string" where
  "getColorForCount count baseColor maxCount =
     (if num_le count (Fin 0) then ''#ebedf0''
      else shadeColor baseColor (intensityOf count maxCount))"

text \<open>
  The vocabulary of the claims about colours: a well-formed base colour is \<open>#\<close> followed
  by six hexadecimal digits; its channel at offset \<open>k\<close> (1, 3 or 5) is the value of the
  two digits there; the output channel is what \<open>shadeColor\<close> prints at that place.
\<close>

definition wellFormedColor :: "string \<Rightarrow> bool" where
  "wellFormedColor s = (length s = 7 \<and> hd s = CHR ''#'' \<and> list_all isHexDigit (tl s))"

definition baseChannel :: "string \<Rightarrow> nat \<Rightarrow> nat" where
  "baseChannel color k = 16 * hexDigitValue (color ! k) + hexDigitValue (color ! Suc k)"

definition outChannel :: "number \<Rightarrow> string \<Rightarrow> number \<Rightarrow> nat \<Rightarrow> number" where
  "outChannel count baseColor maxCount k =
     mix (intensityOf count maxCount) (parseInt16 (substring baseColor k (k + 2)))"

section \<open>Properties of rounding\<close>

text \<open>Evaluation of floors and ceilings of rational literals.\<close>

lemma floor_rat_numeral [simp]:
  "\<lfloor>numeral a / numeral b :: rat\<rfloor> = numeral a div numeral b"
  by (metis floor_divide_of_int_eq of_int_numeral)

lemma floor_rat_neg_numeral [simp]:
  "\<lfloor>- (numeral a / numeral b) :: rat\<rfloor> = - numeral a div numeral b"
  by (metis floor_divide_of_int_eq of_int_numeral of_int_minus minus_divide_left)

lemma ceiling_rat_numeral [simp]:
  "\<lceil>numeral a / numeral b :: rat\<rceil> = - (- numeral a div numeral b)"
  unfolding ceiling_def by (simp flip: minus_divide_left)

lemma ceiling_rat_neg_numeral [simp]:
  "\<lceil>- (numeral a / numeral b) :: rat\<rceil> = - (numeral a div numeral b)"
  unfolding ceiling_def by simp

lemma floorlog_two_numeral:
  "floorlog 2 (numeral n) = Suc (floorlog 2 (numeral n div 2))"
  by (subst compute_floorlog) simp

lemma floorlog_two_small: "floorlog 2 0 = 0" "floorlog 2 1 = 1" "floorlog 2 (Suc 0) = 1"
  by (simp_all add: compute_floorlog)

lemma bitlen_numeral: "bitlen (numeral n) = int (floorlog 2 (numeral n))"
  by (simp add: bitlen_def)

lemma bitlen_small: "bitlen 1 = 1" "bitlen (- numeral n) = 0"
  by (simp_all add: bitlen_def compute_floorlog)

lemmas round_eval =
  rnd_def ulp_exp_def ilog2_def rne_def bitlen_numeral bitlen_small floorlog_two_numeral
  floorlog_two_small Let_def round64_def lit_def

text \<open>
  Rounding to the nearest integer is monotone, fixes the integers and commutes with
  negation.
\<close>

lemma rne_of_int: "rne (of_int n) = n"
  by (simp add: rne_def)

lemma rne_lower: "\<lfloor>x\<rfloor> \<le> rne x"
  by (simp add: rne_def Let_def)

lemma rne_upper: "rne x \<le> \<lfloor>x\<rfloor> + 1"
  by (simp add: rne_def Let_def)

lemma rne_mono: "x \<le> y \<Longrightarrow> rne x \<le> rne y"
proof -
  assume xy: "x \<le> y"
  then have fl: "\<lfloor>x\<rfloor> \<le> \<lfloor>y\<rfloor>" by (rule floor_mono)
  show ?thesis
  proof (cases "\<lfloor>x\<rfloor> = \<lfloor>y\<rfloor>")
    case True
    with xy show ?thesis by (auto simp: rne_def Let_def)
  next
    case False
    with fl have "\<lfloor>x\<rfloor> + 1 \<le> \<lfloor>y\<rfloor>" by simp
    with rne_upper [of x] rne_lower [of y] show ?thesis by linarith
  qed
qed

lemma rne_minus: "rne (- x) = - rne x"
proof (cases "x \<in> \<int>")
  case True
  then obtain n where "x = of_int n" by (auto elim: Ints_cases)
  then show ?thesis by (simp add: rne_def flip: of_int_minus)
next
  case False
  then have ne: "x \<noteq> of_int \<lfloor>x\<rfloor>"
    by (metis Ints_of_int)
  then have f: "\<lfloor>- x\<rfloor> = - \<lfloor>x\<rfloor> - 1"
    by (simp add: floor_minus ceiling_altdef)
  have lt: "of_int \<lfloor>x\<rfloor> < x"
    using ne of_int_floor_le [of x] by linarith
  show ?thesis
    unfolding rne_def Let_def f using lt by (auto simp: algebra_simps)
qed

lemma ilog2_bounds:
  assumes "0 < x"
  shows "2 powi ilog2 x \<le> x" and "x < 2 powi (ilog2 x + 1)"
proof -
  have "2 powi ilog2 x \<le> x \<and> x < 2 powi (ilog2 x + 1)"
  proof (cases "1 \<le> x")
    case True
    define n where "n = \<lfloor>x\<rfloor>"
    have n1: "1 \<le> n" using True by (simp add: n_def)
    then have b1: "1 \<le> bitlen n" by (simp add: bitlen_alt_def)
    from n1 bitlen_bounds [of n]
    have lo: "2 ^ nat (bitlen n - 1) \<le> n" and hi: "n < 2 ^ nat (bitlen n)" by simp_all
    have "(2::rat) ^ nat (bitlen n - 1) = of_int (2 ^ nat (bitlen n - 1))" by simp
    also have "\<dots> \<le> of_int n" using lo by (simp only: of_int_le_iff)
    also have "\<dots> \<le> x" by (simp add: n_def)
    finally have A: "(2::rat) ^ nat (bitlen n - 1) \<le> x" .
    have "n + 1 \<le> 2 ^ nat (bitlen n)" using hi by simp
    then have "(of_int (n + 1) :: rat) \<le> of_int (2 ^ nat (bitlen n))" by (simp only: of_int_le_iff)
    moreover have "x < of_int (n + 1)" using floor_correct [of x] by (simp add: n_def)
    ultimately have B: "x < 2 ^ nat (bitlen n)" by simp
    from A B b1 True show ?thesis
      by (simp add: ilog2_def n_def [symmetric] power_int_def)
  next
    case False
    define y where "y = 1 / x"
    have y1: "1 < y" using False assms by (simp add: y_def)
    define m where "m = \<lceil>y\<rceil> - 1"
    have m1: "1 \<le> m" using y1 by (simp add: m_def less_ceiling_iff)
    then have b1: "1 \<le> bitlen m" by (simp add: bitlen_alt_def)
    from m1 bitlen_bounds [of m]
    have lo: "2 ^ nat (bitlen m - 1) \<le> m" and hi: "m < 2 ^ nat (bitlen m)" by simp_all
    have my: "of_int m < y" using ceiling_correct [of y] by (simp add: m_def)
    have ym: "y \<le> of_int (m + 1)" using ceiling_correct [of y] by (simp add: m_def)
    have "(2::rat) ^ nat (bitlen m - 1) = of_int (2 ^ nat (bitlen m - 1))" by simp
    also have "\<dots> \<le> of_int m" using lo by (simp only: of_int_le_iff)
    also have "\<dots> < y" by (rule my)
    finally have A: "(2::rat) ^ nat (bitlen m - 1) < y" .
    have "m + 1 \<le> 2 ^ nat (bitlen m)" using hi by simp
    then have "(of_int (m + 1) :: rat) \<le> of_int (2 ^ nat (bitlen m))" by (simp only: of_int_le_iff)
    with ym have B: "y \<le> 2 ^ nat (bitlen m)" by simp
    have il: "ilog2 x = - bitlen m" using False by (simp add: ilog2_def m_def y_def)
    have xy: "x = 1 / y" using assms by (simp add: y_def)
    have p1: "(2::rat) powi (- bitlen m) = 1 / 2 ^ nat (bitlen m)"
      using b1 by (simp add: power_int_def field_simps)
    have p2: "(2::rat) powi (- bitlen m + 1) = 1 / 2 ^ nat (bitlen m - 1)"
      using b1 by (auto simp add: power_int_def field_simps)
    have "1 / 2 ^ nat (bitlen m) \<le> 1 / y" using B y1 by (simp add: frac_le)
    moreover have "1 / y < 1 / 2 ^ nat (bitlen m - 1)" using A by (simp add: frac_less2)
    ultimately show ?thesis unfolding il p1 p2 by (simp only: xy)
  qed
  then show "2 powi ilog2 x \<le> x" and "x < 2 powi (ilog2 x + 1)" by simp_all
qed

lemma ilog2_unique:
  assumes "0 < x" "2 powi e \<le> x" "x < 2 powi (e + 1)"
  shows "ilog2 x = e"
proof (rule antisym)
  show "ilog2 x \<le> e"
  proof (rule ccontr)
    assume "\<not> ilog2 x \<le> e"
    then have "e + 1 \<le> ilog2 x" by simp
    then have "(2::rat) powi (e + 1) \<le> 2 powi ilog2 x" by (simp add: power_int_increasing)
    with ilog2_bounds(1) [OF assms(1)] assms(3) show False by linarith
  qed
  show "e \<le> ilog2 x"
  proof (rule ccontr)
    assume "\<not> e \<le> ilog2 x"
    then have "ilog2 x + 1 \<le> e" by simp
    then have "(2::rat) powi (ilog2 x + 1) \<le> 2 powi e" by (simp add: power_int_increasing)
    with ilog2_bounds(2) [OF assms(1)] assms(2) show False by linarith
  qed
qed

lemma ilog2_mono:
  assumes "0 < x" "x \<le> y"
  shows "ilog2 x \<le> ilog2 y"
proof (rule ccontr)
  assume "\<not> ilog2 x \<le> ilog2 y"
  then have "ilog2 y + 1 \<le> ilog2 x" by simp
  then have "(2::rat) powi (ilog2 y + 1) \<le> 2 powi ilog2 x" by (simp add: power_int_increasing)
  moreover have "0 < y" using assms by simp
  ultimately show False
    using ilog2_bounds(1) [OF assms(1)] ilog2_bounds(2) [of y] assms(2) by linarith
qed

lemma pow2_split: "(2::rat) powi (a + b) = 2 powi a * 2 powi b"
  by (simp add: power_int_add)

lemma pow2_quot: "(2::rat) powi a / 2 powi b = 2 powi (a - b)"
  by (simp add: power_int_diff)

lemma ulp_exp_minus: "ulp_exp (- x) = ulp_exp x"
  by (simp add: ulp_exp_def)

lemma rnd_minus: "rnd (- x) = - rnd x"
  by (simp add: rnd_def ulp_exp_minus Let_def rne_minus)

lemma rnd_nonneg: "0 \<le> x \<Longrightarrow> 0 \<le> rnd x"
proof -
  assume x: "0 \<le> x"
  have "0 \<le> rne (x / 2 powi ulp_exp x)"
    using rne_mono [of 0 "x / 2 powi ulp_exp x"] x rne_of_int [of 0] by simp
  then show ?thesis by (simp add: rnd_def Let_def)
qed

lemma rnd_mono_pos:
  assumes x: "0 < x" and xy: "x \<le> y"
  shows "rnd x \<le> rnd y"
proof -
  have y: "0 < y" using x xy by simp
  define ex where "ex = max (ilog2 x) (- 1022)"
  define ey where "ey = max (ilog2 y) (- 1022)"
  have ux: "ulp_exp x = ex - 52" and uy: "ulp_exp y = ey - 52"
    using x y by (simp_all add: ulp_exp_def ex_def ey_def)
  have rx: "rnd x = of_int (rne (x / 2 powi (ex - 52))) * 2 powi (ex - 52)"
    using x by (simp add: rnd_def ux Let_def)
  have ry: "rnd y = of_int (rne (y / 2 powi (ey - 52))) * 2 powi (ey - 52)"
    using y by (simp add: rnd_def uy Let_def)
  have le: "ex \<le> ey" using ilog2_mono [OF x xy] by (simp add: ex_def ey_def)
  show ?thesis
  proof (cases "ex = ey")
    case True
    have "x / 2 powi (ey - 52) \<le> y / 2 powi (ey - 52)"
      using xy by (simp add: divide_right_mono)
    then have "rne (x / 2 powi (ey - 52)) \<le> rne (y / 2 powi (ey - 52))" by (rule rne_mono)
    then show ?thesis unfolding rx ry True by (simp add: mult_right_mono)
  next
    case False
    with le have lt: "ex + 1 \<le> ey" by simp
    then have eyy: "ey = ilog2 y" by (simp add: ex_def ey_def)
    have "x < 2 powi (ilog2 x + 1)" by (rule ilog2_bounds(2) [OF x])
    also have "\<dots> \<le> 2 powi (ex + 1)" by (simp add: power_int_increasing ex_def)
    finally have xlt: "x < 2 powi (ex + 1)" .
    then have "x / 2 powi (ex - 52) < 2 powi (ex + 1) / 2 powi (ex - 52)"
      by (simp add: divide_strict_right_mono)
    also have "\<dots> = of_int (2 ^ 53)" by (simp add: pow2_quot)
    finally have "rne (x / 2 powi (ex - 52)) \<le> 2 ^ 53"
      using rne_mono [of "x / 2 powi (ex - 52)" "of_int (2 ^ 53)"] by (simp only: rne_of_int)
    then have "(of_int (rne (x / 2 powi (ex - 52))) :: rat) \<le> of_int (2 ^ 53)"
      by (simp only: of_int_le_iff)
    then have "rnd x \<le> of_int (2 ^ 53) * 2 powi (ex - 52)"
      unfolding rx by (simp add: mult_right_mono)
    also have "\<dots> = 2 powi 53 * 2 powi (ex - 52)" by simp
    also have "\<dots> = 2 powi (53 + (ex - 52))" by (simp only: pow2_split)
    also have "\<dots> = 2 powi (ex + 1)" by (simp add: add.commute)
    also have "\<dots> \<le> 2 powi ey" using lt by (simp add: power_int_increasing)
    finally have A: "rnd x \<le> 2 powi ey" .
    have "2 powi ey \<le> y" unfolding eyy by (rule ilog2_bounds(1) [OF y])
    then have "2 powi ey / 2 powi (ey - 52) \<le> y / 2 powi (ey - 52)"
      by (simp add: divide_right_mono)
    moreover have "(2::rat) powi ey / 2 powi (ey - 52) = of_int (2 ^ 52)" by (simp add: pow2_quot)
    ultimately have "2 ^ 52 \<le> rne (y / 2 powi (ey - 52))"
      using rne_mono [of "of_int (2 ^ 52)" "y / 2 powi (ey - 52)"] by (simp only: rne_of_int)
    then have "(of_int (2 ^ 52) :: rat) \<le> of_int (rne (y / 2 powi (ey - 52)))"
      by (simp only: of_int_le_iff)
    then have "of_int (2 ^ 52) * 2 powi (ey - 52) \<le> rnd y"
      unfolding ry by (simp add: mult_right_mono)
    moreover have "of_int (2 ^ 52) * 2 powi (ey - 52) = (2::rat) powi 52 * 2 powi (ey - 52)" by simp
    moreover have "(2::rat) powi 52 * 2 powi (ey - 52) = 2 powi (52 + (ey - 52))" by (simp only: pow2_split)
    moreover have "(2::rat) powi (52 + (ey - 52)) = 2 powi ey" by simp
    ultimately have B: "2 powi ey \<le> rnd y" by simp
    from A B show ?thesis by simp
  qed
qed

lemma rnd_zero: "rnd 0 = 0"
  by (simp add: rnd_def)

lemma rnd_mono: "x \<le> y \<Longrightarrow> rnd x \<le> rnd y"
proof -
  assume xy: "x \<le> y"
  consider "0 < x" | "x \<le> 0" "0 \<le> y" | "y < 0" by linarith
  then show ?thesis
  proof cases
    case 1
    then show ?thesis using xy by (rule rnd_mono_pos)
  next
    case 2
    have "rnd x \<le> 0" using rnd_nonneg [of "- x"] 2(1) by (simp add: rnd_minus)
    moreover have "0 \<le> rnd y" using 2(2) by (rule rnd_nonneg)
    ultimately show ?thesis by simp
  next
    case 3
    then have "rnd (- y) \<le> rnd (- x)" using xy by (intro rnd_mono_pos) simp_all
    then show ?thesis by (simp add: rnd_minus)
  qed
qed

lemma rnd_exact:
  assumes m: "\<bar>m\<bar> < 2 ^ 53" and j: "- 1074 \<le> j"
  shows "rnd (of_int m * 2 powi j) = of_int m * 2 powi j"
proof (cases "m = 0")
  case True
  then show ?thesis by (simp add: rnd_def)
next
  case False
  define x :: rat where "x = of_int m * 2 powi j"
  have x0: "x \<noteq> 0" using False by (simp add: x_def)
  have ax: "\<bar>x\<bar> = of_int \<bar>m\<bar> * 2 powi j" by (simp add: x_def abs_mult)
  define k where "k = ulp_exp x"
  have kj: "k \<le> j"
  proof (rule ccontr)
    assume "\<not> k \<le> j"
    then have jk: "j < k" by simp
    with j have "ilog2 \<bar>x\<bar> = k + 52" by (simp add: k_def ulp_exp_def)
    then have "2 powi (k + 52) \<le> \<bar>x\<bar>" using ilog2_bounds(1) [of "\<bar>x\<bar>"] x0 by simp
    moreover have "(of_int \<bar>m\<bar> :: rat) < of_int (2 ^ 53)" using m by (simp only: of_int_less_iff)
    then have "\<bar>x\<bar> < of_int (2 ^ 53) * 2 powi j" unfolding ax by (simp add: mult_strict_right_mono)
    moreover have "of_int (2 ^ 53) * 2 powi j = (2::rat) powi 53 * 2 powi j" by simp
    moreover have "(2::rat) powi 53 * 2 powi j = 2 powi (53 + j)" by (simp only: pow2_split)
    ultimately have "(2::rat) powi (k + 52) < 2 powi (53 + j)" by simp
    moreover have "(2::rat) powi (53 + j) \<le> 2 powi (k + 52)" using jk by (simp add: power_int_increasing)
    ultimately show False by simp
  qed
  have "x / 2 powi k = of_int m * (2 powi j / 2 powi k)" by (simp add: x_def)
  also have "\<dots> = of_int m * 2 powi (j - k)" by (simp only: pow2_quot)
  also have "\<dots> = of_int (m * 2 ^ nat (j - k))" using kj by (simp add: power_int_def)
  finally have q: "x / 2 powi k = of_int (m * 2 ^ nat (j - k))" .
  have "rnd x = of_int (rne (x / 2 powi k)) * 2 powi k" using x0 by (simp add: rnd_def k_def Let_def)
  also have "\<dots> = x / 2 powi k * 2 powi k" unfolding q by (simp only: rne_of_int)
  also have "\<dots> = x" by simp
  finally show ?thesis by (simp add: x_def)
qed

lemma rnd_of_int: "\<bar>m\<bar> < 2 ^ 53 \<Longrightarrow> rnd (of_int m) = of_int m"
  using rnd_exact [of m 0] by simp

lemma rnd_bounds:
  assumes "\<bar>lo\<bar> < 2 ^ 53" "\<bar>hi\<bar> < 2 ^ 53" "of_int lo \<le> x" "x \<le> of_int hi"
  shows "of_int lo \<le> rnd x" "rnd x \<le> of_int hi"
  using rnd_mono [OF assms(3)] rnd_mono [OF assms(4)] assms(1,2) by (simp_all add: rnd_of_int)

lemma round64_Fin:
  assumes "\<bar>x\<bar> \<le> 2 ^ 52"
  shows "round64 x = Fin (rnd x)"
proof -
  have "rnd (of_int (- (2 ^ 52))) \<le> rnd x" using assms by (intro rnd_mono) simp
  moreover have "rnd x \<le> rnd (of_int (2 ^ 52))" using assms by (intro rnd_mono) simp
  moreover have "rnd (of_int (- (2 ^ 52))) = of_int (- (2 ^ 52))" by (rule rnd_of_int) simp
  moreover have "rnd (of_int (2 ^ 52)) = of_int (2 ^ 52)" by (rule rnd_of_int) simp
  ultimately have "- (2 ^ 52) \<le> rnd x" "rnd x \<le> 2 ^ 52" by simp_all
  then show ?thesis by (simp add: round64_def)
qed

section \<open>Properties of the colour utility\<close>

text \<open>
  C4.  A count that is at most zero is painted in the fixed neutral colour \<open>#ebedf0\<close>,
  whatever the base colour and the maximum are.
\<close>

theorem neutral_color_for_nonpositive_count:
  "num_le count (Fin 0) \<Longrightarrow> getColorForCount count baseColor maxCount = ''#ebedf0''"
  by (simp add: getColorForCount_def)

theorem neutral_color_for_nonpositive_count_witness:
  "num_le (Fin (- 3)) (Fin 0) \<and> getColorForCount (Fin (- 3)) ''#239a3b'' (Fin 0) = ''#ebedf0''"
  using neutral_color_for_nonpositive_count [of "Fin (- 3)" "''#239a3b''" "Fin 0"] by simp

text \<open>
  Rounding never yields NaN, and every operation used by the colour utility is monotone
  in the extended order of the numbers.
\<close>

lemma round64_not_NaN: "round64 a \<noteq> NaN"
  by (simp add: round64_def Let_def)

lemma round64_mono: "a \<le> b \<Longrightarrow> num_le (round64 a) (round64 b)"
  using rnd_mono [of a b] by (auto simp: round64_def Let_def)

lemma round64_of_int: "\<bar>n\<bar> < 2 ^ 52 \<Longrightarrow> round64 (of_int n) = Fin (of_int n)"
proof -
  assume n: "\<bar>n\<bar> < 2 ^ 52"
  then have "\<bar>of_int n :: rat\<bar> \<le> of_int (2 ^ 52)"
    unfolding of_int_abs [symmetric] by (simp only: of_int_le_iff)
  then have "round64 (of_int n) = Fin (rnd (of_int n))" by (intro round64_Fin) simp
  moreover have "rnd (of_int n) = of_int n" using n by (intro rnd_of_int) simp
  ultimately show ?thesis by simp
qed

lemma num_le_refl: "v \<noteq> NaN \<Longrightarrow> num_le v v"
  by (cases v) simp_all

lemma num_le_trans: "num_le u v \<Longrightarrow> num_le v w \<Longrightarrow> num_le u w"
  by (cases u; cases v; cases w) simp_all

lemma fmul_mono:
  assumes "0 < a" "num_le u v"
  shows "num_le (fmul (Fin a) u) (fmul (Fin a) v)"
proof (cases u; cases v)
  fix b c assume "u = Fin b" "v = Fin c"
  with assms show ?thesis by (simp add: round64_mono)
qed (use assms in \<open>auto simp: round64_def Let_def\<close>)

lemma fadd_mono:
  assumes "num_le u v"
  shows "num_le (fadd (Fin a) u) (fadd (Fin a) v)"
proof (cases u; cases v)
  fix b c assume "u = Fin b" "v = Fin c"
  with assms show ?thesis by (simp add: round64_mono)
qed (use assms in \<open>auto simp: round64_def Let_def\<close>)

lemma fdiv_mono:
  assumes "0 < m" "a \<le> b"
  shows "num_le (fdiv (Fin a) (Fin m)) (fdiv (Fin b) (Fin m))"
  using assms by (simp add: round64_mono divide_right_mono)

lemma lit_nine_tenths: "lit (9 / 10) = Fin (8106479329266893 / 9007199254740992)"
  by (simp add: round_eval)

lemma lit_thirtyfive_hundredths: "lit (35 / 100) = Fin (3152519739159347 / 9007199254740992)"
  by (simp add: round_eval)

lemma intensity_at_threshold:
  "fadd (lit (35 / 100)) (fmul (lit (9 / 10)) (round64 (13 / 18))) = Fin 1"
  by (simp add: round_eval)

lemma mathMin_one: "num_le (Fin 1) v \<Longrightarrow> mathMin v (Fin 1) = Fin 1"
  by (cases v) (auto simp: mathMin_def)

lemma intensity_saturated:
  assumes "0 < m" "0 < c" "13 * m \<le> 18 * c"
  shows "intensityOf (Fin c) (Fin m) = Fin 1"
proof -
  have "13 / 18 \<le> c / m" using assms by (simp add: field_simps)
  then have "num_le (round64 (13 / 18)) (fdiv (Fin c) (Fin m))"
    using assms(1) by (simp add: round64_mono)
  then have "num_le (fmul (lit (9 / 10)) (round64 (13 / 18)))
                    (fmul (lit (9 / 10)) (fdiv (Fin c) (Fin m)))"
    unfolding lit_nine_tenths by (intro fmul_mono) simp_all
  then have "num_le (fadd (lit (35 / 100)) (fmul (lit (9 / 10)) (round64 (13 / 18))))
                    (fadd (lit (35 / 100)) (fmul (lit (9 / 10)) (fdiv (Fin c) (Fin m))))"
    unfolding lit_thirtyfive_hundredths by (intro fadd_mono)
  then show ?thesis
    unfolding intensityOf_def intensity_at_threshold by (rule mathMin_one)
qed


lemma intensity_range:
  assumes "0 < m" "0 < c"
  shows "\<exists>i. intensityOf (Fin c) (Fin m) = Fin i \<and> 0 < i \<and> i \<le> 1"
proof -
  have "num_le (round64 0) (fdiv (Fin c) (Fin m))"
    using assms by (simp add: round64_mono)
  then have "num_le (fmul (lit (9 / 10)) (round64 0)) (fmul (lit (9 / 10)) (fdiv (Fin c) (Fin m)))"
    unfolding lit_nine_tenths by (intro fmul_mono) simp_all
  then have "num_le (fadd (lit (35 / 100)) (fmul (lit (9 / 10)) (round64 0)))
                    (fadd (lit (35 / 100)) (fmul (lit (9 / 10)) (fdiv (Fin c) (Fin m))))"
    unfolding lit_thirtyfive_hundredths by (intro fadd_mono)
  moreover have "fadd (lit (35 / 100)) (fmul (lit (9 / 10)) (round64 0))
                 = Fin (3152519739159347 / 9007199254740992)"
    by (simp add: round_eval)
  ultimately have "num_le (Fin (3152519739159347 / 9007199254740992))
                     (fadd (lit (35 / 100)) (fmul (lit (9 / 10)) (fdiv (Fin c) (Fin m))))"
    by simp
  then show ?thesis
    unfolding intensityOf_def
    by (cases "fadd (lit (35 / 100)) (fmul (lit (9 / 10)) (fdiv (Fin c) (Fin m)))")
       (auto simp: mathMin_def)
qed

lemma intensity_mono:
  assumes "0 < m" "c1 \<le> c2"
  shows "num_le (intensityOf (Fin c1) (Fin m)) (intensityOf (Fin c2) (Fin m))"
proof -
  have "num_le (fdiv (Fin c1) (Fin m)) (fdiv (Fin c2) (Fin m))"
    using assms by (rule fdiv_mono)
  then have "num_le (fmul (lit (9 / 10)) (fdiv (Fin c1) (Fin m)))
                    (fmul (lit (9 / 10)) (fdiv (Fin c2) (Fin m)))"
    unfolding lit_nine_tenths by (intro fmul_mono) simp_all
  then have le: "num_le (fadd (lit (35 / 100)) (fmul (lit (9 / 10)) (fdiv (Fin c1) (Fin m))))
                    (fadd (lit (35 / 100)) (fmul (lit (9 / 10)) (fdiv (Fin c2) (Fin m))))"
    unfolding lit_thirtyfive_hundredths by (intro fadd_mono)
  show ?thesis
    unfolding intensityOf_def using le
    by (cases "fadd (lit (35 / 100)) (fmul (lit (9 / 10)) (fdiv (Fin c1) (Fin m)))";
        cases "fadd (lit (35 / 100)) (fmul (lit (9 / 10)) (fdiv (Fin c2) (Fin m)))")
       (auto simp: mathMin_def)
qed

text \<open>The interpolation of one channel, for a channel value between 0 and 255.\<close>

lemma mix_Fin:
  assumes k: "0 \<le> k" "k \<le> 255" and i: "0 \<le> i" "i \<le> 1"
  shows "mix (Fin i) (Fin (of_int k)) =
           Fin (of_int \<lfloor>rnd (255 - rnd (of_int (255 - k) * i)) + 1 / 2\<rfloor>)"
    and "0 \<le> rnd (of_int (255 - k) * i)"
    and "rnd (of_int (255 - k) * i) \<le> of_int (255 - k)"
proof -
  have s1: "fsub (Fin 255) (Fin (of_int k)) = Fin (of_int (255 - k))"
    using k round64_of_int [of "255 - k"] by (simp add: fsub_def)
  have p0: "0 \<le> of_int (255 - k) * i" using k i by simp
  have p1: "of_int (255 - k) * i \<le> of_int (255 - k)"
    using k i by (simp add: mult_left_le)
  from rnd_bounds [of 0 "255 - k" "of_int (255 - k) * i"] p0 p1 k
  show b0: "0 \<le> rnd (of_int (255 - k) * i)"
    and b1: "rnd (of_int (255 - k) * i) \<le> of_int (255 - k)" by simp_all
  have "\<bar>of_int (255 - k) * i\<bar> \<le> 2 ^ 52" using p0 p1 k by simp
  then have s2: "fmul (Fin (of_int (255 - k))) (Fin i) = Fin (rnd (of_int (255 - k) * i))"
    by (simp add: round64_Fin)
  have "\<bar>255 - rnd (of_int (255 - k) * i)\<bar> \<le> 2 ^ 52" using b0 b1 k by simp
  then have s3: "fsub (Fin 255) (Fin (rnd (of_int (255 - k) * i)))
                 = Fin (rnd (255 - rnd (of_int (255 - k) * i)))"
    by (simp add: fsub_def round64_Fin)
  show "mix (Fin i) (Fin (of_int k)) =
           Fin (of_int \<lfloor>rnd (255 - rnd (of_int (255 - k) * i)) + 1 / 2\<rfloor>)"
    by (simp only: mix_def s1 s2 s3 mathRound.simps)
qed

lemma mix_lower:
  assumes k: "0 \<le> k" "k \<le> 255" and i: "0 \<le> i" "i \<le> 1"
  shows "k \<le> \<lfloor>rnd (255 - rnd (of_int (255 - k) * i)) + 1 / 2\<rfloor>"
proof -
  have "of_int k \<le> 255 - rnd (of_int (255 - k) * i)"
    using mix_Fin(3) [OF assms] by simp
  from rnd_bounds(1) [of k 255, OF _ _ this] mix_Fin(2) [OF assms] k
  have "of_int k \<le> rnd (255 - rnd (of_int (255 - k) * i))" by simp
  then have "of_int k \<le> rnd (255 - rnd (of_int (255 - k) * i)) + 1 / 2" by simp
  then show ?thesis by (simp only: le_floor_iff)
qed

lemma mix_antimono:
  assumes k: "0 \<le> k" "k \<le> 255" and i: "i1 \<le> i2"
  shows "\<lfloor>rnd (255 - rnd (of_int (255 - k) * i2)) + 1 / 2\<rfloor>
         \<le> \<lfloor>rnd (255 - rnd (of_int (255 - k) * i1)) + 1 / 2\<rfloor>"
proof -
  have "of_int (255 - k) * i1 \<le> of_int (255 - k) * i2"
    using k i by (simp add: mult_left_mono)
  then have "rnd (of_int (255 - k) * i1) \<le> rnd (of_int (255 - k) * i2)" by (rule rnd_mono)
  then have "255 - rnd (of_int (255 - k) * i2) \<le> 255 - rnd (of_int (255 - k) * i1)" by simp
  then have "rnd (255 - rnd (of_int (255 - k) * i2)) \<le> rnd (255 - rnd (of_int (255 - k) * i1))"
    by (rule rnd_mono)
  then show ?thesis by (intro floor_mono) simp
qed

lemma mix_saturated:
  assumes k: "0 \<le> k" "k \<le> 255"
  shows "mix (Fin 1) (Fin (of_int k)) = Fin (of_int k)"
proof -
  have "rnd (of_int (255 - k)) = of_int (255 - k)" using k by (intro rnd_of_int) simp
  moreover have "rnd (of_int k) = of_int k" using k by (intro rnd_of_int) simp
  moreover have "(255 :: rat) - of_int (255 - k) = of_int k" by simp
  moreover have "\<lfloor>(of_int k :: rat) + 1 / 2\<rfloor> = k" by linarith
  ultimately show ?thesis using mix_Fin(1) [OF k, of 1] by simp
qed

text \<open>The channels of a well-formed colour.\<close>

lemma hexVal_less: "hexVal c = Some d \<Longrightarrow> d < 16"
  by (auto simp: hexVal_def Let_def split: if_splits)

lemma hexDigit_plain:
  assumes "isHexDigit c"
  shows "\<not> isWhiteSpace c" "c \<noteq> CHR ''-''" "c \<noteq> CHR ''+''" "c \<noteq> CHR ''x''" "c \<noteq> CHR ''X''"
  using assms by (auto simp: isHexDigit_def hexVal_def isWhiteSpace_def Let_def split: if_splits)

lemma parseInt16_pair:
  assumes "isHexDigit a" "isHexDigit b"
  shows "parseInt16 [a, b] = Fin (of_int (int (16 * hexDigitValue a + hexDigitValue b)))"
    and "16 * hexDigitValue a + hexDigitValue b \<le> 255"
proof -
  from assms obtain da db where d: "hexVal a = Some da" "hexVal b = Some db"
    by (auto simp: isHexDigit_def)
  then have lt: "da < 16" "db < 16" by (auto dest: hexVal_less)
  have v: "hexDigitValue a = da" "hexDigitValue b = db" using d by (simp_all add: hexDigitValue_def)
  show "16 * hexDigitValue a + hexDigitValue b \<le> 255" using lt v by simp
  have h: "hexToNat [a, b] = 16 * da + db" using v by (simp add: hexToNat_def)
  have "\<bar>int (16 * da + db)\<bar> < 2 ^ 52" using lt by simp
  then have "round64 (of_int (int (16 * da + db))) = Fin (of_int (int (16 * da + db)))"
    by (rule round64_of_int)
  then show "parseInt16 [a, b] = Fin (of_int (int (16 * hexDigitValue a + hexDigitValue b)))"
    using assms hexDigit_plain [OF assms(1)] hexDigit_plain [OF assms(2)] h v
    by (simp add: parseInt16_def Let_def)
qed

lemma wellFormedColor_cases:
  assumes "wellFormedColor s"
  obtains c1 c2 c3 c4 c5 c6 where "s = [CHR ''#'', c1, c2, c3, c4, c5, c6]"
    "isHexDigit c1" "isHexDigit c2" "isHexDigit c3" "isHexDigit c4" "isHexDigit c5" "isHexDigit c6"
proof -
  from assms have "length s = 7" by (simp add: wellFormedColor_def)
  then obtain c0 c1 c2 c3 c4 c5 c6 where s: "s = [c0, c1, c2, c3, c4, c5, c6]"
    by (auto simp: eval_nat_numeral length_Suc_conv)
  with assms that show ?thesis by (simp add: wellFormedColor_def)
qed

lemma channel_of_wellFormed:
  assumes "wellFormedColor s"
  shows "parseInt16 (substring s 1 3) = Fin (of_int (int (baseChannel s 1)))"
    and "parseInt16 (substring s 3 5) = Fin (of_int (int (baseChannel s 3)))"
    and "parseInt16 (substring s 5 7) = Fin (of_int (int (baseChannel s 5)))"
    and "baseChannel s 1 \<le> 255" and "baseChannel s 3 \<le> 255" and "baseChannel s 5 \<le> 255"
proof -
  from assms obtain c1 c2 c3 c4 c5 c6 where s: "s = [CHR ''#'', c1, c2, c3, c4, c5, c6]"
    and h: "isHexDigit c1" "isHexDigit c2" "isHexDigit c3" "isHexDigit c4" "isHexDigit c5" "isHexDigit c6"
    by (rule wellFormedColor_cases)
  have sub: "substring s 1 3 = [c1, c2]" "substring s 3 5 = [c3, c4]" "substring s 5 7 = [c5, c6]"
    by (simp_all add: s substring_def eval_nat_numeral)
  have bc: "baseChannel s 1 = 16 * hexDigitValue c1 + hexDigitValue c2"
    "baseChannel s 3 = 16 * hexDigitValue c3 + hexDigitValue c4"
    "baseChannel s 5 = 16 * hexDigitValue c5 + hexDigitValue c6"
    by (simp_all add: s baseChannel_def eval_nat_numeral)
  show "parseInt16 (substring s 1 3) = Fin (of_int (int (baseChannel s 1)))"
    unfolding sub bc using h by (intro parseInt16_pair(1))
  show "parseInt16 (substring s 3 5) = Fin (of_int (int (baseChannel s 3)))"
    unfolding sub bc using h by (intro parseInt16_pair(1))
  show "parseInt16 (substring s 5 7) = Fin (of_int (int (baseChannel s 5)))"
    unfolding sub bc using h by (intro parseInt16_pair(1))
  show "baseChannel s 1 \<le> 255" unfolding bc using h by (intro parseInt16_pair(2))
  show "baseChannel s 3 \<le> 255" unfolding bc using h by (intro parseInt16_pair(2))
  show "baseChannel s 5 \<le> 255" unfolding bc using h by (intro parseInt16_pair(2))
qed

lemma outChannel_unfold:
  "outChannel count baseColor maxCount 1 = mix (intensityOf count maxCount) (parseInt16 (substring baseColor 1 3))"
  "outChannel count baseColor maxCount 3 = mix (intensityOf count maxCount) (parseInt16 (substring baseColor 3 5))"
  "outChannel count baseColor maxCount 5 = mix (intensityOf count maxCount) (parseInt16 (substring baseColor 5 7))"
  by (simp_all add: outChannel_def eval_nat_numeral)

lemma channel_at:
  assumes "wellFormedColor s" "k = 1 \<or> k = 3 \<or> k = 5"
  shows "outChannel count s maxCount k = mix (intensityOf count maxCount) (Fin (of_int (int (baseChannel s k))))"
    and "baseChannel s k \<le> 255"
  using assms(2) channel_of_wellFormed [OF assms(1)]
  by (auto simp only: outChannel_unfold)

lemma shadeColor_saturated:
  assumes "wellFormedColor baseColor"
  shows "shadeColor baseColor (Fin 1) =
           rgbString (Fin (of_int (int (baseChannel baseColor 1))))
                     (Fin (of_int (int (baseChannel baseColor 3))))
                     (Fin (of_int (int (baseChannel baseColor 5))))"
proof -
  note ch = channel_of_wellFormed [OF assms]
  have sat: "mix (Fin 1) (Fin (of_int (int n))) = Fin (of_int (int n))" if "n \<le> 255" for n
    using mix_saturated [of "int n"] that by simp
  show ?thesis
    by (simp only: shadeColor_def Let_def ch(1-3) sat [OF ch(4)] sat [OF ch(5)] sat [OF ch(6)])
qed

text \<open>
  C5.  For a count at or above a positive maximum and a well-formed \<open>#RRGGBB\<close> base
  colour, the intensity is capped at exactly 1 and every output channel is the base
  colour's own channel: the result is the \<open>rgb(r, g, b)\<close> string of the base colour.
\<close>

theorem saturated_color_at_or_above_max:
  assumes "wellFormedColor baseColor" "0 < maxCount" "maxCount \<le> count"
  shows "intensityOf (Fin count) (Fin maxCount) = Fin 1 \<and>
         getColorForCount (Fin count) baseColor (Fin maxCount) =
           rgbString (Fin (of_int (int (baseChannel baseColor 1))))
                     (Fin (of_int (int (baseChannel baseColor 3))))
                     (Fin (of_int (int (baseChannel baseColor 5))))"
proof -
  have pos: "0 < count" using assms(2,3) by simp
  have "13 * maxCount \<le> 18 * count" using assms(2,3) by simp
  then have sat: "intensityOf (Fin count) (Fin maxCount) = Fin 1"
    using assms(2) pos by (intro intensity_saturated)
  have "getColorForCount (Fin count) baseColor (Fin maxCount) = shadeColor baseColor (Fin 1)"
    using pos by (simp add: getColorForCount_def sat)
  with sat shadeColor_saturated [OF assms(1)] show ?thesis by simp
qed

theorem saturated_color_at_or_above_max_witness:
  "wellFormedColor ''#239a3b'' \<and> (0 :: rat) < 5 \<and> (5 :: rat) \<le> 7 \<and>
   intensityOf (Fin 7) (Fin 5) = Fin 1 \<and>
   getColorForCount (Fin 7) ''#239a3b'' (Fin 5) = ''rgb(35, 154, 59)''"
proof -
  have wf: "wellFormedColor ''#239a3b''"
    by (simp add: wellFormedColor_def isHexDigit_def hexVal_def)
  have ch: "baseChannel ''#239a3b'' 1 = 35" "baseChannel ''#239a3b'' (Suc 0) = 35"
    "baseChannel ''#239a3b'' 3 = 154" "baseChannel ''#239a3b'' 5 = 59"
    by (simp_all add: baseChannel_def hexDigitValue_def hexVal_def eval_nat_numeral)
  have sh: "showNat 35 = ''35''" "showNat 154 = ''154''" "showNat 59 = ''59''"
    by (simp_all add: showNat.simps digitChar_def)
  from saturated_color_at_or_above_max [OF wf, of 5 7] wf show ?thesis
    by (simp add: ch rgbString_def showInt_def sh)
qed

text \<open>
  C10.  Saturation is reached strictly below the maximum: whenever
  \<open>18 * count \<ge> 13 * maxCount\<close> for positive count and maximum, the term
  \<open>0.35 + 0.9 * (count / maxCount)\<close>, computed in binary64, is at least 1, the
  intensity is 1, and the colour is the colour of the maximum itself.
\<close>

theorem saturation_reached_below_max:
  assumes "0 < maxCount" "0 < count" "13 * maxCount \<le> 18 * count"
  shows "num_le (Fin 1) (fadd (lit (35 / 100)) (fmul (lit (9 / 10)) (fdiv (Fin count) (Fin maxCount)))) \<and>
         intensityOf (Fin count) (Fin maxCount) = Fin 1 \<and>
         getColorForCount (Fin count) baseColor (Fin maxCount) = getColorForCount (Fin maxCount) baseColor (Fin maxCount)"
proof -
  have a: "intensityOf (Fin count) (Fin maxCount) = Fin 1" using assms by (rule intensity_saturated)
  have b: "intensityOf (Fin maxCount) (Fin maxCount) = Fin 1" using assms(1) by (intro intensity_saturated) simp_all
  have "13 / 18 \<le> count / maxCount" using assms by (simp add: field_simps)
  then have "num_le (round64 (13 / 18)) (fdiv (Fin count) (Fin maxCount))"
    using assms(1) by (simp add: round64_mono)
  then have "num_le (fmul (lit (9 / 10)) (round64 (13 / 18)))
                    (fmul (lit (9 / 10)) (fdiv (Fin count) (Fin maxCount)))"
    unfolding lit_nine_tenths by (intro fmul_mono) simp_all
  then have "num_le (fadd (lit (35 / 100)) (fmul (lit (9 / 10)) (round64 (13 / 18))))
                    (fadd (lit (35 / 100)) (fmul (lit (9 / 10)) (fdiv (Fin count) (Fin maxCount))))"
    unfolding lit_thirtyfive_hundredths by (intro fadd_mono)
  then have c: "num_le (Fin 1) (fadd (lit (35 / 100)) (fmul (lit (9 / 10)) (fdiv (Fin count) (Fin maxCount))))"
    by (simp only: intensity_at_threshold)
  from a b c assms(1,2) show ?thesis by (simp add: getColorForCount_def)
qed

theorem saturation_reached_below_max_witness:
  "(0 :: rat) < 18 \<and> (0 :: rat) < 13 \<and> (13 :: rat) * 18 \<le> 18 * 13 \<and> (13 :: rat) < 18 \<and>
   intensityOf (Fin 13) (Fin 18) = Fin 1 \<and>
   getColorForCount (Fin 13) ''#239a3b'' (Fin 18) = getColorForCount (Fin 18) ''#239a3b'' (Fin 18)"
  using saturation_reached_below_max [of 18 13 "''#239a3b''"] by simp

text \<open>
  C6.  For a fixed positive maximum and a well-formed base colour, every output channel
  moves monotonically towards the base colour's channel as the count grows over the
  positive counts: for \<open>c1 \<le> c2\<close> the channel for \<open>c2\<close> lies between the base
  channel and the channel for \<open>c1\<close>; it never passes the base channel.
\<close>

theorem shade_monotone_in_count:
  assumes wf: "wellFormedColor baseColor" and m: "0 < maxCount" and c: "0 < c1" "c1 \<le> c2"
    and k: "k = 1 \<or> k = 3 \<or> k = 5"
  shows "num_le (Fin (of_int (int (baseChannel baseColor k)))) (outChannel (Fin c2) baseColor (Fin maxCount) k) \<and>
         num_le (outChannel (Fin c2) baseColor (Fin maxCount) k) (outChannel (Fin c1) baseColor (Fin maxCount) k) \<and>
         num_le (outChannel (Fin c1) baseColor (Fin maxCount) k) (Fin 255) \<and>
         getColorForCount (Fin c1) baseColor (Fin maxCount) =
           rgbString (outChannel (Fin c1) baseColor (Fin maxCount) 1) (outChannel (Fin c1) baseColor (Fin maxCount) 3)
                     (outChannel (Fin c1) baseColor (Fin maxCount) 5) \<and>
         getColorForCount (Fin c2) baseColor (Fin maxCount) =
           rgbString (outChannel (Fin c2) baseColor (Fin maxCount) 1) (outChannel (Fin c2) baseColor (Fin maxCount) 3)
                     (outChannel (Fin c2) baseColor (Fin maxCount) 5)"
proof -
  define b where "b = int (baseChannel baseColor k)"
  have b: "0 \<le> b" "b \<le> 255" using channel_at(2) [OF wf k] by (simp_all add: b_def)
  have ch: "outChannel count baseColor (Fin maxCount) k = mix (intensityOf count (Fin maxCount)) (Fin (of_int b))" for count
    using channel_at(1) [OF wf k] by (simp add: b_def)
  have c2: "0 < c2" using c by simp
  from intensity_range [OF m c(1)] obtain i1
    where i1: "intensityOf (Fin c1) (Fin maxCount) = Fin i1" "0 < i1" "i1 \<le> 1" by blast
  from intensity_range [OF m c2] obtain i2
    where i2: "intensityOf (Fin c2) (Fin maxCount) = Fin i2" "0 < i2" "i2 \<le> 1" by blast
  have le: "i1 \<le> i2" using intensity_mono [OF m c(2)] by (simp add: i1 i2)
  have o1: "outChannel (Fin c1) baseColor (Fin maxCount) k =
              Fin (of_int \<lfloor>rnd (255 - rnd (of_int (255 - b) * i1)) + 1 / 2\<rfloor>)"
    using mix_Fin(1) [OF b, of i1] i1 by (simp add: ch)
  have o2: "outChannel (Fin c2) baseColor (Fin maxCount) k =
              Fin (of_int \<lfloor>rnd (255 - rnd (of_int (255 - b) * i2)) + 1 / 2\<rfloor>)"
    using mix_Fin(1) [OF b, of i2] i2 by (simp add: ch)
  have lo: "b \<le> \<lfloor>rnd (255 - rnd (of_int (255 - b) * i2)) + 1 / 2\<rfloor>"
    using mix_lower [OF b, of i2] i2 by simp
  have mono: "\<lfloor>rnd (255 - rnd (of_int (255 - b) * i2)) + 1 / 2\<rfloor>
              \<le> \<lfloor>rnd (255 - rnd (of_int (255 - b) * i1)) + 1 / 2\<rfloor>"
    using b le by (rule mix_antimono)
  have "255 - rnd (of_int (255 - b) * i1) \<le> of_int 255"
    using mix_Fin(2) [OF b, of i1] i1 by simp
  moreover have "of_int 0 \<le> 255 - rnd (of_int (255 - b) * i1)"
    using mix_Fin(3) [OF b, of i1] i1 b by simp
  ultimately have "rnd (255 - rnd (of_int (255 - b) * i1)) \<le> of_int 255"
    by (intro rnd_bounds(2) [of 0 255]) simp_all
  then have "rnd (255 - rnd (of_int (255 - b) * i1)) + 1 / 2 < of_int 256" by simp
  then have "\<lfloor>rnd (255 - rnd (of_int (255 - b) * i1)) + 1 / 2\<rfloor> < 256"
    by (simp only: floor_less_iff)
  then have hi: "\<lfloor>rnd (255 - rnd (of_int (255 - b) * i1)) + 1 / 2\<rfloor> \<le> 255"
    by simp
  have g: "getColorForCount (Fin cc) baseColor (Fin maxCount) =
           rgbString (outChannel (Fin cc) baseColor (Fin maxCount) 1) (outChannel (Fin cc) baseColor (Fin maxCount) 3)
                     (outChannel (Fin cc) baseColor (Fin maxCount) 5)" if "0 < cc" for cc
  proof -
    from that have "\<not> num_le (Fin cc) (Fin 0)" by simp
    then show ?thesis
      by (simp only: getColorForCount_def shadeColor_def outChannel_unfold Let_def if_False)
  qed
  from lo mono hi g [OF c(1)] g [OF c2] show ?thesis
    unfolding o1 o2 b_def [symmetric] by simp
qed


lemmas color_eval =
  mix_def fsub_def intensityOf_def mathMin_def parseInt16_def substring_def
  isWhiteSpace_def isHexDigit_def hexVal_def hexToNat_def hexDigitValue_def

theorem shade_monotone_in_count_witness:
  "wellFormedColor ''#239a3b'' \<and> (0 :: rat) < 10 \<and> (0 :: rat) < 1 \<and> (1 :: rat) \<le> 5 \<and>
   outChannel (Fin 1) ''#239a3b'' (Fin 10) 1 = Fin 158 \<and>
   outChannel (Fin 5) ''#239a3b'' (Fin 10) 1 = Fin 79 \<and>
   baseChannel ''#239a3b'' 1 = 35 \<and>
   num_le (Fin 35) (outChannel (Fin 5) ''#239a3b'' (Fin 10) 1) \<and>
   num_le (outChannel (Fin 5) ''#239a3b'' (Fin 10) 1) (outChannel (Fin 1) ''#239a3b'' (Fin 10) 1)"
proof -
  have wf: "wellFormedColor ''#239a3b''"
    by (simp add: wellFormedColor_def isHexDigit_def hexVal_def)
  have ch: "baseChannel ''#239a3b'' 1 = 35"
    by (simp add: baseChannel_def hexDigitValue_def hexVal_def eval_nat_numeral)
  have o1: "outChannel (Fin 1) ''#239a3b'' (Fin 10) 1 = Fin 158"
    unfolding outChannel_unfold by (simp add: color_eval round_eval)
  have o5: "outChannel (Fin 5) ''#239a3b'' (Fin 10) 1 = Fin 79"
    unfolding outChannel_unfold by (simp add: color_eval round_eval)
  from shade_monotone_in_count [OF wf, of 10 1 5 1] wf ch o1 o5 show ?thesis
    by simp
qed

section \<open>Dates\<close>

text \<open>
  A \<open>Date\<close> holds a time value, the milliseconds since the epoch in UTC, or it is the
  Invalid Date, whose time value is NaN.  ECMA-262 admits the time values within
  8.64e15 ms of the epoch: \<open>TimeClip\<close> turns every other result into the Invalid Date.
  A \<open>Time\<close> outside of that range is no \<open>Date\<close> of the program, and \<open>timeValue\<close> reads it
  as NaN, so that every function below treats it as the Invalid Date.

  A number of the source that is an integer or NaN (a weekday, a count of days) is an
  \<open>int option\<close>, with \<open>None\<close> for NaN.

  The host's time zone is a fixed offset \<open>tz\<close> (local time minus UTC, in milliseconds);
  daylight-saving transitions are outside the model.  The functions of date-fns and of
  the \<open>Date\<close> prototype are the collaborators of the component; they are modelled by
  their documented behaviour, the Invalid Date and the \<open>RangeError\<close> of \<open>toISOString\<close>
  included.
\<close>

datatype date = Time int | InvalidDate

datatype error = RangeError

definition msPerDay :: int where
  "msPerDay = 86400000"

definition maxTime :: int where
  \<comment> \<open>the greatest time value ECMA-262 admits\<close>
  "maxTime = 8640000000000000"

definition timeClip :: "int \<Rightarrow> date" where
  "timeClip t = (if \<bar>t\<bar> \<le> maxTime then Time t else InvalidDate)"

definition timeValue :: "date \<Rightarrow> int option" where
  \<comment> \<open>\<open>d.getTime()\<close>\<close>
  "timeValue d =
     (case d of
        InvalidDate \<Rightarrow> None
      | Time t \<Rightarrow> if \<bar>t\<bar> \<le> maxTime then Some t else None)"

definition validDate :: "date \<Rightarrow> bool" where
  "validDate d = (timeValue d \<noteq> None)"

definition addDays :: "date \<Rightarrow> int option \<Rightarrow> date" where
  \<comment> \<open>a NaN amount or an Invalid Date gives the Invalid Date; \<open>setDate\<close> clips the result\<close>
  "addDays d amount =
     (case amount of
        None \<Rightarrow> InvalidDate
      | Some n \<Rightarrow>
          (case timeValue d of
             None \<Rightarrow> InvalidDate
           | Some t \<Rightarrow> timeClip (t + n * msPerDay)))"

definition differenceInDays :: "date \<Rightarrow> date \<Rightarrow> int option" where
  \<comment> \<open>the number of full days between the two dates, truncated towards zero; NaN when
      one of them is the Invalid Date\<close>
  "differenceInDays later earlier =
     (case timeValue later of
        None \<Rightarrow> None
      | Some l \<Rightarrow>
          (case timeValue earlier of
             None \<Rightarrow> None
           | Some e \<Rightarrow> (let diff = l - e in Some (sgn diff * (\<bar>diff\<bar> div msPerDay)))))"

definition dateLess :: "date \<Rightarrow> date \<Rightarrow> bool" where
  \<comment> \<open>\<open>a < b\<close> on two dates compares their time values; a comparison with NaN is false\<close>
  "dateLess a b =
     (case timeValue a of
        None \<Rightarrow> False
      | Some s \<Rightarrow> (case timeValue b of None \<Rightarrow> False | Some t \<Rightarrow> s < t))"

definition localDay :: "int \<Rightarrow> int \<Rightarrow> int" where
  \<comment> \<open>the day number, counted from 1970-01-01, of the local calendar day of a time value\<close>
  "localDay tz t = (t + tz) div msPerDay"

definition weekDay :: "int \<Rightarrow> int \<Rightarrow> int" where
  \<comment> \<open>of a time value; 0 is Sunday, and day 0 of the epoch was a Thursday\<close>
  "weekDay tz t = (localDay tz t + 4) mod 7"

definition getDay :: "int \<Rightarrow> date \<Rightarrow> int option" where
  \<comment> \<open>NaN for the Invalid Date\<close>
  "getDay tz d = map_option (weekDay tz) (timeValue d)"

text \<open>
  The proleptic Gregorian calendar of ECMA-262, computed from the day number.  Days are
  counted in eras of 400 years (146097 days) that begin on 1 March, so that a leap day is
  the last day of its year, of its cycle of four years and of its century.  An era has
  four centuries of 36524 days and one more day; a century has 25 cycles of 1461 days
  less one day; a cycle has four years of 365 days and one more day.
\<close>

definition dayOfEra :: "int \<Rightarrow> int" where
  "dayOfEra n = (n + 719468) mod 146097"

definition centuryOfEra :: "int \<Rightarrow> int" where
  "centuryOfEra doe = min (doe div 36524) 3"

definition dayOfCentury :: "int \<Rightarrow> int" where
  "dayOfCentury doe = doe - 36524 * centuryOfEra doe"

definition cycleOfCentury :: "int \<Rightarrow> int" where
  "cycleOfCentury doe = min (dayOfCentury doe div 1461) 24"

definition dayOfCycle :: "int \<Rightarrow> int" where
  "dayOfCycle doe = dayOfCentury doe - 1461 * cycleOfCentury doe"

definition yearOfCycle :: "int \<Rightarrow> int" where
  "yearOfCycle doe = min (dayOfCycle doe div 365) 3"

definition yearOfEra :: "int \<Rightarrow> int" where
  "yearOfEra doe = 100 * centuryOfEra doe + 4 * cycleOfCentury doe + yearOfCycle doe"

definition dayOfYear :: "int \<Rightarrow> int" where
  \<comment> \<open>counted from 1 March\<close>
  "dayOfYear doe = dayOfCycle doe - 365 * yearOfCycle doe"

definition marchMonth :: "int \<Rightarrow> int" where
  \<comment> \<open>0 is March, 11 is February\<close>
  "marchMonth doy = (5 * doy + 2) div 153"

definition civilMonth :: "int \<Rightarrow> int" where
  \<comment> \<open>1 to 12\<close>
  "civilMonth n =
     (if marchMonth (dayOfYear (dayOfEra n)) < 10
      then marchMonth (dayOfYear (dayOfEra n)) + 3
      else marchMonth (dayOfYear (dayOfEra n)) - 9)"

definition civilDay :: "int \<Rightarrow> int" where
  \<comment> \<open>1 to 31\<close>
  "civilDay n =
     dayOfYear (dayOfEra n) - (153 * marchMonth (dayOfYear (dayOfEra n)) + 2) div 5 + 1"

definition civilYear :: "int \<Rightarrow> int" where
  "civilYear n =
     yearOfEra (dayOfEra n) + (n + 719468) div 146097 * 400
       + (if civilMonth n \<le> 2 then 1 else 0)"

definition yearMonth :: "int \<Rightarrow> date \<Rightarrow> (int \<times> int) option" where
  \<comment> \<open>the calendar month a date lies in, local time: year and month\<close>
  "yearMonth tz d =
     (case timeValue d of
        None \<Rightarrow> None
      | Some t \<Rightarrow> Some (civilYear (localDay tz t), civilMonth (localDay tz t)))"

definition monthNames :: "string list" where
  "monthNames = [''Jan'', ''Feb'', ''Mar'', ''Apr'', ''May'', ''Jun'',
                 ''Jul'', ''Aug'', ''Sep'', ''Oct'', ''Nov'', ''Dec'']"

definition toLocaleMonthShort :: "int \<Rightarrow> date \<Rightarrow> string" where
  \<comment> \<open>\<open>d.toLocaleString("default", { month: "short" })\<close>\<close>
  "toLocaleMonthShort tz d =
     (case timeValue d of
        None \<Rightarrow> ''Invalid Date''
      | Some t \<Rightarrow> monthNames ! nat (civilMonth (localDay tz t) - 1))"

definition padNat :: "nat \<Rightarrow> nat \<Rightarrow> string" where
  "padNat w n = replicate (w - length (showNat n)) CHR ''0'' @ showNat n"

definition isoYear :: "int \<Rightarrow> string" where
  \<comment> \<open>years outside 0 to 9999 are written with a sign and six digits\<close>
  "isoYear yr =
     (if 0 \<le> yr \<and> yr \<le> 9999 then padNat 4 (nat yr)
      else (if yr < 0 then ''-'' else ''+'') @ padNat 6 (nat \<bar>yr\<bar>))"

definition isoTime :: "int \<Rightarrow> string" where
  \<comment> \<open>the time of day, from the milliseconds since midnight\<close>
  "isoTime t =
     padNat 2 (nat (t div 3600000)) @ '':'' @ padNat 2 (nat (t mod 3600000 div 60000))
       @ '':'' @ padNat 2 (nat (t mod 60000 div 1000)) @ ''.'' @ padNat 3 (nat (t mod 1000))"

definition isoString :: "int \<Rightarrow> string" where
  \<comment> \<open>the ISO string of a time value, always in UTC\<close>
  "isoString t =
     isoYear (civilYear (t div msPerDay)) @ ''-'' @ padNat 2 (nat (civilMonth (t div msPerDay)))
       @ ''-'' @ padNat 2 (nat (civilDay (t div msPerDay)))
       @ ''T'' @ isoTime (t mod msPerDay) @ ''Z''"

definition toISOString :: "date \<Rightarrow> error + string" where
  \<comment> \<open>raises a \<open>RangeError\<close> on the Invalid Date\<close>
  "toISOString d =
     (case timeValue d of
        None \<Rightarrow> Inl RangeError
      | Some t \<Rightarrow> Inr (isoString t))"

definition slice :: "string \<Rightarrow> nat \<Rightarrow> nat \<Rightarrow> string" where
  \<comment> \<open>\<open>s.slice(a, b)\<close> for indices that are not negative\<close>
  "slice s a b = take (b - a) (drop a s)"

definition jsRem :: "int \<Rightarrow> int \<Rightarrow> int" where
  \<comment> \<open>the operator \<open>%\<close> on integers: the sign of the dividend\<close>
  "jsRem a b = sgn a * (\<bar>a\<bar> mod \<bar>b\<bar>)"

definition toNumber :: "int option \<Rightarrow> number" where
  \<comment> \<open>an integer or NaN, as a number\<close>
  "toNumber v = (case v of None \<Rightarrow> NaN | Some n \<Rightarrow> Fin (of_int n))"

definition lessNum :: "int \<Rightarrow> int option \<Rightarrow> bool" where
  \<comment> \<open>\<open>i < v\<close>: false when \<open>v\<close> is NaN\<close>
  "lessNum i v = (case v of None \<Rightarrow> False | Some n \<Rightarrow> i < n)"

section \<open>The heatmap component\<close>

text \<open>
  The props that the layout reads.  The object \<open>data\<close> is the list of its entries, in
  the order of \<open>Object.values\<close>; a look-up takes the first entry with the key, and the
  keys of an object are distinct.  Integers that count days and weeks are kept as
  \<open>int\<close>, or as \<open>int option\<close> where the source can have NaN: they are far below
  \<open>2 ^ 53\<close>, where doubles are exact.  Wherever the source divides or multiplies them as
  numbers, the model does so in binary64.  A function that can raise returns an
  \<open>error + 'a\<close>, with \<open>Inl\<close> for the error.
\<close>

record props =
  data :: "(string \<times> number) list"
  startDate :: date
  endDate :: date
  baseColor :: string
  cellSize :: number
  cellSpacing :: number
  weekStart :: int

record cell =
  date :: date
  count :: number
  x :: number
  y :: number

record monthLabel =
  month :: string
  x :: number

definition alignedStart :: "int \<Rightarrow> props \<Rightarrow> date" where
  \<comment> \<open>\<open>addDays(startDate, -((startDate.getDay() - weekStart + 7) % 7))\<close>\<close>
  "alignedStart tz p =
     addDays (startDate p)
       (map_option (\<lambda>g. - (jsRem (g - weekStart p + 7) 7)) (getDay tz (startDate p)))"

definition totalDays :: "int \<Rightarrow> props \<Rightarrow> int option" where
  \<comment> \<open>NaN when \<open>endDate\<close> or \<open>alignedStart\<close> is the Invalid Date\<close>
  "totalDays tz p = map_option (\<lambda>k. k + 1) (differenceInDays (endDate p) (alignedStart tz p))"

definition totalWeeks :: "int \<Rightarrow> props \<Rightarrow> number" where
  "totalWeeks tz p = mathCeil (fdiv (toNumber (totalDays tz p)) (Fin 7))"

definition maxCount :: "props \<Rightarrow> number" where
  \<comment> \<open>\<open>Math.max(...Object.values(data), 1)\<close>\<close>
  "maxCount p = mathMax (map snd (data p) @ [Fin 1])"

definition lookupCount :: "(string \<times> number) list \<Rightarrow> string \<Rightarrow> number" where
  \<comment> \<open>\<open>data[key] || 0\<close>: a missing key, a zero and a NaN all give 0\<close>
  "lookupCount d key =
     (case map_of d key of
        None \<Rightarrow> Fin 0
      | Some v \<Rightarrow> if v = NaN \<or> v = Fin 0 then Fin 0 else v)"

definition makeCell :: "int \<Rightarrow> props \<Rightarrow> int \<Rightarrow> error + cell" where
  \<comment> \<open>the body of the loop, for the counter \<open>i\<close>; it raises what \<open>toISOString\<close> raises\<close>
  "makeCell tz p i =
     (let current = addDays (alignedStart tz p) (Some i)
      in case toISOString current of
           Inl e \<Rightarrow> Inl e
         | Inr s \<Rightarrow>
             (let count = lookupCount (data p) (slice s 0 10);
                  weekIndex = mathFloor (fdiv (Fin (of_int i)) (Fin 7));
                  dayIndex = Fin (of_int (jsRem i 7))
              in Inr \<lparr> date = current, count = count,
                       cell.x = fmul weekIndex (fadd (cellSize p) (cellSpacing p)),
                       y = fmul dayIndex (fadd (cellSize p) (cellSpacing p)) \<rparr>))"

function cellsLoop :: "int \<Rightarrow> props \<Rightarrow> int \<Rightarrow> cell list \<Rightarrow> error + cell list" where
  "cellsLoop tz p i acc =
     (if lessNum i (totalDays tz p)
      then (case makeCell tz p i of
              Inl e \<Rightarrow> Inl e
            | Inr c \<Rightarrow> cellsLoop tz p (i + 1) (acc @ [c]))
      else Inr acc)"
  by pat_completeness auto
termination
  by (relation "measure (\<lambda>(tz, p, i, acc).
                  case totalDays tz p of None \<Rightarrow> 0 | Some n \<Rightarrow> nat (n - i))")
     (auto simp: lessNum_def split: option.splits)

declare cellsLoop.simps [simp del]

definition cells :: "int \<Rightarrow> props \<Rightarrow> error + cell list" where
  "cells tz p = cellsLoop tz p 0 []"

fun monthLabelsLoop ::
  "int \<Rightarrow> date \<Rightarrow> cell list \<Rightarrow> string set \<Rightarrow> monthLabel list \<Rightarrow> monthLabel list" where
  "monthLabelsLoop tz sd [] seenMonths labels = labels"
| "monthLabelsLoop tz sd (c # cs) seenMonths labels =
     (if dateLess (date c) sd then monthLabelsLoop tz sd cs seenMonths labels
      else let m = toLocaleMonthShort tz (date c)
           in if m \<notin> seenMonths
              then monthLabelsLoop tz sd cs (insert m seenMonths)
                     (labels @ [\<lparr> month = m, monthLabel.x = cell.x c \<rparr>])
              else monthLabelsLoop tz sd cs seenMonths labels)"

definition monthLabels :: "int \<Rightarrow> props \<Rightarrow> error + monthLabel list" where
  \<comment> \<open>the scan runs once the cells are there\<close>
  "monthLabels tz p =
     (case cells tz p of
        Inl e \<Rightarrow> Inl e
      | Inr cs \<Rightarrow> Inr (monthLabelsLoop tz (startDate p) cs {} []))"

definition svgWidth :: "int \<Rightarrow> props \<Rightarrow> number" where
  "svgWidth tz p = fadd (fmul (totalWeeks tz p) (fadd (cellSize p) (cellSpacing p))) (Fin 50)"

definition svgHeight :: "props \<Rightarrow> number" where
  "svgHeight p = fadd (fmul (Fin 7) (fadd (cellSize p) (cellSpacing p))) (Fin 20)"

definition cellColor :: "props \<Rightarrow> cell \<Rightarrow> string" where
  \<comment> \<open>the fill of a cell's shape\<close>
  "cellColor p c = getColorForCount (count c) (baseColor p) (maxCount p)"

text \<open>
  The vocabulary of the claims: the array of cells and the array of labels once the loops
  have run (the loops never raise, see \<open>cells_complete\<close>), the cells that are not before
  \<open>startDate\<close>, the month name of a cell, the label a cell gives, and the cells that are
  the first of their month name in a list.
\<close>

definition cellList :: "int \<Rightarrow> props \<Rightarrow> cell list" where
  "cellList tz p = (case cells tz p of Inl e \<Rightarrow> [] | Inr cs \<Rightarrow> cs)"

definition labelList :: "int \<Rightarrow> props \<Rightarrow> monthLabel list" where
  "labelList tz p = (case monthLabels tz p of Inl e \<Rightarrow> [] | Inr ls \<Rightarrow> ls)"

definition visibleCells :: "int \<Rightarrow> props \<Rightarrow> cell list" where
  "visibleCells tz p = filter (\<lambda>c. \<not> dateLess (date c) (startDate p)) (cellList tz p)"

definition cellMonth :: "int \<Rightarrow> cell \<Rightarrow> string" where
  "cellMonth tz c = toLocaleMonthShort tz (date c)"

definition labelOf :: "int \<Rightarrow> cell \<Rightarrow> monthLabel" where
  "labelOf tz c = \<lparr> month = cellMonth tz c, monthLabel.x = cell.x c \<rparr>"

definition firstOfMonth :: "int \<Rightarrow> cell list \<Rightarrow> nat \<Rightarrow> bool" where
  "firstOfMonth tz cs i = (cellMonth tz (cs ! i) \<notin> cellMonth tz ` set (take i cs))"

section \<open>Properties of the calendar\<close>

text \<open>
  The day of the year lies between 0 and 365, so the month lies between 1 and 12: the
  look-up of its name is within the table, and a name determines the month of the year.
\<close>

lemma dayOfEra_range: "0 \<le> dayOfEra n" "dayOfEra n \<le> 146096"
  by (simp_all add: dayOfEra_def)

lemma dayOfCentury_range:
  assumes "0 \<le> doe" "doe \<le> 146096"
  shows "0 \<le> dayOfCentury doe" "dayOfCentury doe \<le> 36524"
proof -
  have "0 \<le> dayOfCentury doe \<and> dayOfCentury doe \<le> 36524"
  proof (cases "doe div 36524 \<le> 3")
    case True
    then have "dayOfCentury doe = doe mod 36524"
      by (simp add: dayOfCentury_def centuryOfEra_def minus_mult_div_eq_mod)
    then show ?thesis by simp
  next
    case False
    then have "109572 \<le> doe" "dayOfCentury doe = doe - 109572"
      by (simp_all add: dayOfCentury_def centuryOfEra_def)
    with assms show ?thesis by simp
  qed
  then show "0 \<le> dayOfCentury doe" "dayOfCentury doe \<le> 36524" by simp_all
qed

lemma dayOfCycle_range:
  assumes "0 \<le> doe" "doe \<le> 146096"
  shows "0 \<le> dayOfCycle doe" "dayOfCycle doe \<le> 1460"
proof -
  note c = dayOfCentury_range [OF assms]
  have "0 \<le> dayOfCycle doe \<and> dayOfCycle doe \<le> 1460"
  proof (cases "dayOfCentury doe div 1461 \<le> 24")
    case True
    then have "dayOfCycle doe = dayOfCentury doe mod 1461"
      by (simp add: dayOfCycle_def cycleOfCentury_def minus_mult_div_eq_mod)
    then show ?thesis by simp
  next
    case False
    then have "35064 \<le> dayOfCentury doe" "dayOfCycle doe = dayOfCentury doe - 35064"
      by (simp_all add: dayOfCycle_def cycleOfCentury_def)
    with c show ?thesis by simp
  qed
  then show "0 \<le> dayOfCycle doe" "dayOfCycle doe \<le> 1460" by simp_all
qed

lemma dayOfYear_range:
  assumes "0 \<le> doe" "doe \<le> 146096"
  shows "0 \<le> dayOfYear doe" "dayOfYear doe \<le> 365"
proof -
  note c = dayOfCycle_range [OF assms]
  have "0 \<le> dayOfYear doe \<and> dayOfYear doe \<le> 365"
  proof (cases "dayOfCycle doe div 365 \<le> 3")
    case True
    then have "dayOfYear doe = dayOfCycle doe mod 365"
      by (simp add: dayOfYear_def yearOfCycle_def minus_mult_div_eq_mod)
    then have "0 \<le> dayOfYear doe \<and> dayOfYear doe < 365" by simp
    then show ?thesis by simp
  next
    case False
    then have "1095 \<le> dayOfCycle doe" "dayOfYear doe = dayOfCycle doe - 1095"
      by (simp_all add: dayOfYear_def yearOfCycle_def)
    with c show ?thesis by simp
  qed
  then show "0 \<le> dayOfYear doe" "dayOfYear doe \<le> 365" by simp_all
qed

lemma civilMonth_range: "1 \<le> civilMonth n" "civilMonth n \<le> 12"
proof -
  note d = dayOfYear_range [OF dayOfEra_range, of n]
  have "0 \<le> marchMonth (dayOfYear (dayOfEra n))" "marchMonth (dayOfYear (dayOfEra n)) \<le> 11"
    using d unfolding marchMonth_def by linarith+
  then show "1 \<le> civilMonth n" "civilMonth n \<le> 12"
    by (simp_all add: civilMonth_def)
qed

lemma monthNames_distinct: "distinct monthNames" "length monthNames = 12"
  by (simp_all add: monthNames_def)

lemma monthNames_nth_valid:
  assumes "1 \<le> m" "m \<le> 12"
  shows "monthNames ! nat (m - 1) \<noteq> ''Invalid Date''"
proof -
  have "nat (m - 1) < length monthNames" using assms by (simp add: monthNames_distinct(2))
  then have "monthNames ! nat (m - 1) \<in> set monthNames" by (rule nth_mem)
  moreover have "''Invalid Date'' \<notin> set monthNames" by (simp add: monthNames_def)
  ultimately show ?thesis by metis
qed

lemma monthNames_nth_eq_iff:
  assumes "1 \<le> m" "m \<le> 12" "1 \<le> k" "k \<le> 12"
  shows "monthNames ! nat (m - 1) = monthNames ! nat (k - 1) \<longleftrightarrow> m = k"
proof -
  have "nat (m - 1) < length monthNames" "nat (k - 1) < length monthNames"
    using assms by (simp_all add: monthNames_distinct(2))
  then have "monthNames ! nat (m - 1) = monthNames ! nat (k - 1) \<longleftrightarrow> nat (m - 1) = nat (k - 1)"
    by (simp add: nth_eq_iff_index_eq monthNames_distinct(1))
  then show ?thesis using assms by auto
qed

lemma toLocaleMonthShort_eq_iff:
  "toLocaleMonthShort tz d = toLocaleMonthShort tz e
     \<longleftrightarrow> map_option snd (yearMonth tz d) = map_option snd (yearMonth tz e)"
proof (cases "timeValue d")
  case None
  show ?thesis
  proof (cases "timeValue e")
    case n: None
    with None show ?thesis by (simp add: toLocaleMonthShort_def yearMonth_def)
  next
    case (Some t)
    with None show ?thesis
      using monthNames_nth_valid [OF civilMonth_range, of "localDay tz t"]
      by (simp add: toLocaleMonthShort_def yearMonth_def)
  qed
next
  case (Some s)
  show ?thesis
  proof (cases "timeValue e")
    case None
    with Some show ?thesis
      using monthNames_nth_valid [OF civilMonth_range, of "localDay tz s"]
      by (simp add: toLocaleMonthShort_def yearMonth_def)
  next
    case t: (Some t)
    with Some show ?thesis
      using monthNames_nth_eq_iff [OF civilMonth_range civilMonth_range, of "localDay tz s" "localDay tz t"]
      by (simp add: toLocaleMonthShort_def yearMonth_def)
  qed
qed

section \<open>Properties of the dates\<close>

text \<open>Time values are within the range, and \<open>addDays\<close> moves a date or invalidates it.\<close>

lemma timeValue_range: "timeValue d = Some t \<Longrightarrow> \<bar>t\<bar> \<le> maxTime"
  by (cases d) (simp_all add: timeValue_def split: if_splits)

lemma timeValue_Time: "\<bar>t\<bar> \<le> maxTime \<Longrightarrow> timeValue (Time t) = Some t"
  by (simp add: timeValue_def)

lemma timeValue_timeClip: "timeValue (timeClip t) = (if \<bar>t\<bar> \<le> maxTime then Some t else None)"
  by (simp add: timeValue_def timeClip_def)

lemma addDays_invalid: "timeValue d = None \<Longrightarrow> addDays d amount = InvalidDate"
  by (simp add: addDays_def split: option.splits)

lemma addDays_Some:
  "timeValue d = Some t \<Longrightarrow> addDays d (Some n) = timeClip (t + n * msPerDay)"
  by (simp add: addDays_def)

lemma timeValue_InvalidDate: "timeValue InvalidDate = None"
  by (simp add: timeValue_def)

lemma timeValue_addDays_Some:
  assumes "timeValue (addDays d amount) = Some u"
  shows "\<exists>t n. timeValue d = Some t \<and> amount = Some n \<and> u = t + n * msPerDay"
proof (cases "timeValue d")
  case None
  with assms show ?thesis by (simp add: addDays_invalid timeValue_InvalidDate)
next
  case (Some t)
  show ?thesis
  proof (cases amount)
    case None
    with assms show ?thesis by (simp add: addDays_def timeValue_InvalidDate)
  next
    case n: (Some n)
    with Some assms show ?thesis
      by (simp add: addDays_Some timeValue_timeClip split: if_splits)
  qed
qed

section \<open>Properties of the layout\<close>

text \<open>
  The remainder of the alignment lies between 0 and 6.  A valid \<open>alignedStart\<close> comes from
  a valid \<open>startDate\<close>, and a day count that is a number comes from two valid dates, which
  bounds it.
\<close>

lemma jsRem_nonneg: "0 \<le> a \<Longrightarrow> jsRem a 7 = a mod 7"
  by (cases "a = 0") (simp_all add: jsRem_def)

lemma jsRem_bound: "\<bar>jsRem a 7\<bar> \<le> 6"
proof -
  have "0 \<le> \<bar>a\<bar> mod 7" "\<bar>a\<bar> mod 7 \<le> 6" by simp_all
  then show ?thesis by (cases "a < 0"; cases "a = 0") (simp_all add: jsRem_def abs_mult)
qed

lemma alignedStart_valid:
  assumes "timeValue (alignedStart tz p) = Some a"
  shows "\<exists>s. timeValue (startDate p) = Some s \<and>
             a = s - jsRem (weekDay tz s - weekStart p + 7) 7 * msPerDay"
proof -
  from timeValue_addDays_Some [OF assms [unfolded alignedStart_def]]
  obtain s n where s: "timeValue (startDate p) = Some s"
    and n: "map_option (\<lambda>g. - (jsRem (g - weekStart p + 7) 7)) (getDay tz (startDate p)) = Some n"
    and a: "a = s + n * msPerDay" by blast
  from n s have "n = - jsRem (weekDay tz s - weekStart p + 7) 7" by (auto simp: getDay_def)
  with s a show ?thesis by simp
qed

lemma totalDays_Some:
  assumes "totalDays tz p = Some n"
  shows "\<exists>a e. timeValue (alignedStart tz p) = Some a \<and> timeValue (endDate p) = Some e \<and>
               n = sgn (e - a) * (\<bar>e - a\<bar> div msPerDay) + 1"
  using assms by (auto simp: totalDays_def differenceInDays_def Let_def split: option.splits)

lemma totalDays_None:
  "(totalDays tz p = None) = (\<not> validDate (endDate p) \<or> \<not> validDate (alignedStart tz p))"
  by (auto simp: totalDays_def differenceInDays_def Let_def validDate_def split: option.splits)

lemma totalDays_bound:
  assumes "totalDays tz p = Some n"
  shows "n \<le> 200000001"
proof -
  from totalDays_Some [OF assms] obtain a e
    where a: "timeValue (alignedStart tz p) = Some a" and e: "timeValue (endDate p) = Some e"
      and n: "n = sgn (e - a) * (\<bar>e - a\<bar> div msPerDay) + 1" by blast
  define d where "d = e - a"
  have "d \<le> 17280000000000000"
    using timeValue_range [OF a] timeValue_range [OF e] by (simp add: d_def maxTime_def)
  then have "\<bar>d\<bar> div msPerDay \<le> 200000000" if "0 \<le> d"
    using that by (simp add: msPerDay_def)
  then have "sgn d * (\<bar>d\<bar> div msPerDay) \<le> 200000000"
    by (cases "0 < d"; cases "d = 0") (simp_all add: msPerDay_def sgn_if)
  then show ?thesis by (simp add: n d_def)
qed

text \<open>
  The dates of the loop lie between \<open>alignedStart\<close> and \<open>endDate\<close>, so they are valid and
  \<open>toISOString\<close> does not raise.
\<close>

lemma loop_date:
  assumes "totalDays tz p = Some n" "timeValue (alignedStart tz p) = Some a" "0 \<le> i" "i < n"
  shows "addDays (alignedStart tz p) (Some i) = Time (a + i * msPerDay)"
    and "timeValue (Time (a + i * msPerDay)) = Some (a + i * msPerDay)"
proof -
  from totalDays_Some [OF assms(1)] assms(2) obtain e
    where e: "timeValue (endDate p) = Some e"
      and n: "n = sgn (e - a) * (\<bar>e - a\<bar> div msPerDay) + 1" by auto
  define d where "d = e - a"
  have i: "i \<le> sgn d * (\<bar>d\<bar> div 86400000)" using assms(4) by (simp add: n d_def msPerDay_def)
  have "0 \<le> i * 86400000 \<and> a + i * 86400000 \<le> max a e"
  proof (cases "0 \<le> d")
    case True
    then have "i \<le> d div 86400000" using i by (cases "d = 0") (simp_all add: sgn_if)
    then have "i * 86400000 \<le> d div 86400000 * 86400000" by simp
    also have "\<dots> \<le> d" using True by (simp add: minus_mod_eq_div_mult [symmetric])
    finally have "a + i * 86400000 \<le> e" by (simp add: d_def)
    with assms(3) show ?thesis by simp
  next
    case False
    then have "0 \<le> \<bar>d\<bar> div 86400000" by simp
    with False have "sgn d * (\<bar>d\<bar> div 86400000) \<le> 0" by (simp add: sgn_if)
    with i assms(3) have "i = 0" by simp
    then show ?thesis by simp
  qed
  then have "\<bar>a + i * msPerDay\<bar> \<le> maxTime"
    using timeValue_range [OF assms(2)] timeValue_range [OF e] unfolding msPerDay_def
    by linarith
  then show "addDays (alignedStart tz p) (Some i) = Time (a + i * msPerDay)"
    and "timeValue (Time (a + i * msPerDay)) = Some (a + i * msPerDay)"
    by (simp_all add: addDays_Some [OF assms(2)] timeClip_def timeValue_def)
qed

lemma makeCell_Inr:
  assumes "totalDays tz p = Some n" "timeValue (alignedStart tz p) = Some a" "0 \<le> i" "i < n"
  shows "makeCell tz p i =
           Inr \<lparr> date = Time (a + i * msPerDay),
                 count = lookupCount (data p) (slice (isoString (a + i * msPerDay)) 0 10),
                 cell.x = fmul (mathFloor (fdiv (Fin (of_int i)) (Fin 7)))
                               (fadd (cellSize p) (cellSpacing p)),
                 y = fmul (Fin (of_int (jsRem i 7))) (fadd (cellSize p) (cellSpacing p)) \<rparr>"
  by (simp add: makeCell_def Let_def loop_date [OF assms] toISOString_def)

text \<open>The loop that generates the cells is a map over the offsets from 0.\<close>

lemma cellsLoop_eq:
  assumes "totalDays tz p = Some n" "0 \<le> i"
  shows "cellsLoop tz p i acc = Inr (acc @ map (\<lambda>j. projr (makeCell tz p j)) [i .. n - 1])"
  using assms
proof (induction tz p i acc rule: cellsLoop.induct)
  case (1 tz p i acc)
  show ?case
  proof (cases "i < n")
    case True
    from totalDays_Some [OF "1.prems"(1)] obtain a
      where a: "timeValue (alignedStart tz p) = Some a" by blast
    from makeCell_Inr [OF "1.prems"(1) a "1.prems"(2) True] obtain c
      where c: "makeCell tz p i = Inr c" by blast
    have l: "lessNum i (totalDays tz p)" using True "1.prems"(1) by (simp add: lessNum_def)
    have u: "[i .. n - 1] = i # [i + 1 .. n - 1]" using True by (simp add: upto_rec1)
    have "cellsLoop tz p (i + 1) (acc @ [c])
            = Inr ((acc @ [c]) @ map (\<lambda>j. projr (makeCell tz p j)) [i + 1 .. n - 1])"
      using l c "1.prems" by (intro "1.IH") simp_all
    then show ?thesis using l c by (subst cellsLoop.simps) (simp add: u)
  next
    case False
    then have "\<not> lessNum i (totalDays tz p)" using "1.prems"(1) by (simp add: lessNum_def)
    with False show ?thesis by (subst cellsLoop.simps) simp
  qed
qed

lemma cells_eq:
  "totalDays tz p = Some n \<Longrightarrow> cells tz p = Inr (map (\<lambda>j. projr (makeCell tz p j)) [0 .. n - 1])"
  by (simp add: cells_def cellsLoop_eq)

lemma cells_NaN: "totalDays tz p = None \<Longrightarrow> cells tz p = Inr []"
  unfolding cells_def by (subst cellsLoop.simps) (simp add: lessNum_def)

lemma cells_complete: "cells tz p = Inr (cellList tz p)"
  by (cases "totalDays tz p") (simp_all add: cellList_def cells_NaN cells_eq)

lemma cellList_eq:
  "totalDays tz p = Some n \<Longrightarrow> cellList tz p = map (\<lambda>j. projr (makeCell tz p j)) [0 .. n - 1]"
  by (simp add: cellList_def cells_eq)

lemma cellList_NaN: "totalDays tz p = None \<Longrightarrow> cellList tz p = []"
  by (simp add: cellList_def cells_NaN)

lemma length_cellList: "totalDays tz p = Some n \<Longrightarrow> length (cellList tz p) = nat n"
  by (simp add: cellList_eq)

lemma cellList_nth:
  assumes "totalDays tz p = Some n" "timeValue (alignedStart tz p) = Some a" "0 \<le> i" "i < n"
  shows "makeCell tz p i = Inr (cellList tz p ! nat i)"
  using assms(3,4) makeCell_Inr [OF assms] by (simp add: cellList_eq [OF assms(1)])

lemma monthLabels_complete: "monthLabels tz p = Inr (labelList tz p)"
  by (simp add: labelList_def monthLabels_def cells_complete)

lemma labelList_empty: "cellList tz p = [] \<Longrightarrow> labelList tz p = []"
  by (simp add: labelList_def monthLabels_def cells_complete)

text \<open>
  Division by 7 in binary64, followed by \<open>Math.floor\<close> or \<open>Math.ceil\<close>, is exact on the
  day counts of the component: the quotient of a multiple of 7 is an integer, and any
  other quotient lies between two eighths that are doubles.
\<close>

lemma rnd_sevenths:
  assumes n: "0 \<le> n" "n < 2 ^ 49"
  shows "\<lfloor>rnd (of_int n / 7)\<rfloor> = n div 7"
    and "\<lceil>rnd (of_int n / 7)\<rceil> = (n + 6) div 7"
proof -
  define k where "k = n div 7"
  define r where "r = n mod 7"
  have nk: "n = 7 * k + r" and r: "0 \<le> r" "r \<le> 6" by (simp_all add: k_def r_def)
  have k: "0 \<le> k" "k < 2 ^ 49" using n by (simp_all add: k_def)
  have q: "(of_int n :: rat) / 7 = of_int k + of_int r / 7" by (simp add: nk)
  have "\<lfloor>rnd (of_int n / 7)\<rfloor> = n div 7 \<and> \<lceil>rnd (of_int n / 7)\<rceil> = (n + 6) div 7"
  proof (cases "r = 0")
    case True
    then have "(of_int n :: rat) / 7 = of_int k" by (simp add: q)
    moreover have "rnd (of_int k) = of_int k" using k by (intro rnd_of_int) simp
    moreover have "(n + 6) div 7 = k" using True by (simp add: nk)
    ultimately show ?thesis by (simp add: k_def)
  next
    case False
    with r have r1: "1 \<le> r" by simp
    define lo :: rat where "lo = of_int (8 * k + 1) * 2 powi (- 3)"
    define hi :: rat where "hi = of_int (8 * k + 7) * 2 powi (- 3)"
    have lo: "lo = of_int k + 1 / 8" and hi: "hi = of_int k + 7 / 8"
      by (simp_all add: lo_def hi_def power_int_minus field_simps)
    have "rnd lo = lo" unfolding lo_def using k by (intro rnd_exact) simp_all
    moreover have "rnd hi = hi" unfolding hi_def using k by (intro rnd_exact) simp_all
    moreover have "lo \<le> of_int n / 7"
    proof -
      have "(1 :: rat) \<le> of_int r" using r1 by simp
      then show ?thesis unfolding lo q by simp
    qed
    moreover have "of_int n / 7 \<le> hi"
    proof -
      have "(of_int r :: rat) \<le> 6" using r by simp
      then show ?thesis unfolding hi q by simp
    qed
    ultimately have b: "lo \<le> rnd (of_int n / 7)" "rnd (of_int n / 7) \<le> hi"
      using rnd_mono [of lo "of_int n / 7"] rnd_mono [of "of_int n / 7" hi] by simp_all
    have "\<lfloor>rnd (of_int n / 7)\<rfloor> = k" using b unfolding lo hi by linarith
    moreover have "\<lceil>rnd (of_int n / 7)\<rceil> = k + 1" using b unfolding lo hi by linarith
    moreover have "(n + 6) div 7 = k + 1" using r r1 unfolding nk by simp
    ultimately show ?thesis by (simp add: k_def)
  qed
  then show "\<lfloor>rnd (of_int n / 7)\<rfloor> = n div 7" and "\<lceil>rnd (of_int n / 7)\<rceil> = (n + 6) div 7"
    by simp_all
qed

lemma fdiv_seven:
  assumes n: "0 \<le> n" "n < 2 ^ 49"
  shows "mathFloor (fdiv (Fin (of_int n)) (Fin 7)) = Fin (of_int (n div 7))"
    and "mathCeil (fdiv (Fin (of_int n)) (Fin 7)) = Fin (of_int ((n + 6) div 7))"
proof -
  have "\<bar>(of_int n :: rat) / 7\<bar> \<le> of_int n" using n by simp
  also have "(of_int n :: rat) \<le> of_int (2 ^ 52)" using n by (simp only: of_int_le_iff) simp
  finally have "\<bar>(of_int n :: rat) / 7\<bar> \<le> 2 ^ 52" by simp
  then have "fdiv (Fin (of_int n)) (Fin 7) = Fin (rnd (of_int n / 7))"
    by (simp add: round64_Fin)
  then show "mathFloor (fdiv (Fin (of_int n)) (Fin 7)) = Fin (of_int (n div 7))"
    and "mathCeil (fdiv (Fin (of_int n)) (Fin 7)) = Fin (of_int ((n + 6) div 7))"
    using rnd_sevenths [OF n] by simp_all
qed

lemma ceiling_sevenths: "\<lceil>(of_int n :: rat) / 7\<rceil> = (n + 6) div 7"
proof -
  have "- ((of_int n :: rat) / of_int 7) = of_int (- n) / of_int 7" by simp
  then have "\<lceil>(of_int n :: rat) / of_int 7\<rceil> = - (- n div 7)"
    by (simp only: ceiling_def floor_divide_of_int_eq)
  then show ?thesis by simp
qed

lemma lookupCount_plain:
  assumes "NaN \<notin> snd ` set d"
  shows "lookupCount d key = (case map_of d key of None \<Rightarrow> Fin 0 | Some v \<Rightarrow> v)"
proof (cases "map_of d key")
  case None
  then show ?thesis by (simp add: lookupCount_def)
next
  case (Some v)
  then have "(key, v) \<in> set d" by (rule map_of_SomeD)
  then have "v \<in> snd ` set d" by (metis image_eqI snd_conv)
  with assms have "v \<noteq> NaN" by blast
  with Some show ?thesis by (simp add: lookupCount_def)
qed

lemma replicate_numeral_eval: "replicate (numeral n) c = c # replicate (pred_numeral n) c"
  by (simp add: numeral_eq_Suc)

lemmas date_eval = replicate_numeral_eval
  alignedStart_def addDays_def getDay_def weekDay_def localDay_def jsRem_def msPerDay_def
  maxTime_def timeClip_def timeValue_def validDate_def dateLess_def totalDays_def
  differenceInDays_def dayOfEra_def centuryOfEra_def dayOfCentury_def
  cycleOfCentury_def dayOfCycle_def yearOfCycle_def yearOfEra_def dayOfYear_def marchMonth_def
  civilMonth_def civilDay_def civilYear_def isoYear_def isoTime_def isoString_def
  toISOString_def padNat_def showNat.simps digitChar_def slice_def yearMonth_def
  toLocaleMonthShort_def monthNames_def Let_def

text \<open>
  C2.  The loop completes without an error.  For every offset \<open>i\<close> from 0 below
  \<open>totalDays\<close>, the \<open>i\<close>-th cell has the date \<open>alignedStart + i\<close> days, which is a valid
  date, the count stored in \<open>data\<close> under the first ten characters of that date's ISO
  string (0 when the key is absent), and the offsets
  \<open>x = floor(i / 7) * (cellSize + cellSpacing)\<close> and
  \<open>y = (i mod 7) * (cellSize + cellSpacing)\<close>; there are \<open>totalDays\<close> cells.  The counts
  of \<open>data\<close> are numbers, not NaN.
\<close>

theorem cell_at_offset:
  assumes "NaN \<notin> snd ` set (data p)"
    and "totalDays tz p = Some n" "0 \<le> i" "i < n"
  shows "cells tz p = Inr (cellList tz p) \<and>
         length (cellList tz p) = nat n \<and>
         (\<exists>a. timeValue (alignedStart tz p) = Some a \<and>
              timeValue (addDays (alignedStart tz p) (Some i)) = Some (a + i * msPerDay)) \<and>
         (\<exists>s. toISOString (addDays (alignedStart tz p) (Some i)) = Inr s \<and>
              cellList tz p ! nat i =
                \<lparr> date = addDays (alignedStart tz p) (Some i),
                  count = (case map_of (data p) (slice s 0 10)
                           of None \<Rightarrow> Fin 0 | Some v \<Rightarrow> v),
                  cell.x = fmul (Fin (of_int (i div 7))) (fadd (cellSize p) (cellSpacing p)),
                  y = fmul (Fin (of_int (i mod 7))) (fadd (cellSize p) (cellSpacing p)) \<rparr>)"
proof -
  from totalDays_Some [OF assms(2)] obtain a
    where a: "timeValue (alignedStart tz p) = Some a" by blast
  note ld = loop_date [OF assms(2) a assms(3,4)]
  have "n \<le> 200000001" using assms(2) by (rule totalDays_bound)
  with assms(4) have "i < 2 ^ 49" by simp
  with assms(3) have w: "mathFloor (fdiv (Fin (of_int i)) (Fin 7)) = Fin (of_int (i div 7))"
    by (intro fdiv_seven(1))
  have d: "jsRem i 7 = i mod 7" using assms(3) by (rule jsRem_nonneg)
  have "makeCell tz p i = Inr (cellList tz p ! nat i)"
    using assms(2) a assms(3,4) by (rule cellList_nth)
  then have c: "cellList tz p ! nat i =
      \<lparr> date = Time (a + i * msPerDay),
        count = (case map_of (data p) (slice (isoString (a + i * msPerDay)) 0 10)
                 of None \<Rightarrow> Fin 0 | Some v \<Rightarrow> v),
        cell.x = fmul (Fin (of_int (i div 7))) (fadd (cellSize p) (cellSpacing p)),
        y = fmul (Fin (of_int (i mod 7))) (fadd (cellSize p) (cellSpacing p)) \<rparr>"
    by (simp only: makeCell_Inr [OF assms(2) a assms(3,4)] w d lookupCount_plain [OF assms(1)]
        sum.inject)
  have s: "toISOString (addDays (alignedStart tz p) (Some i)) = Inr (isoString (a + i * msPerDay))"
    by (simp add: ld toISOString_def)
  have t: "timeValue (addDays (alignedStart tz p) (Some i)) = Some (a + i * msPerDay)"
    by (simp only: ld)
  from a t s c show ?thesis
    by (simp add: cells_complete length_cellList [OF assms(2)] ld(1))
qed

theorem cell_at_offset_witness:
  "totalDays 0 \<lparr> data = [(''2024-01-01'', Fin 5), (''2024-01-09'', Fin 2)],
                 startDate = Time 1704240000000, endDate = Time 1704844800000,
                 baseColor = ''#239a3b'', cellSize = Fin 14, cellSpacing = Fin 4,
                 weekStart = 1 \<rparr> = Some 10 \<and>
   cellList 0 \<lparr> data = [(''2024-01-01'', Fin 5), (''2024-01-09'', Fin 2)],
                startDate = Time 1704240000000, endDate = Time 1704844800000,
                baseColor = ''#239a3b'', cellSize = Fin 14, cellSpacing = Fin 4,
                weekStart = 1 \<rparr> ! 8 =
     \<lparr> date = Time 1704758400000, count = Fin 2, cell.x = Fin 18, y = Fin 18 \<rparr> \<and>
   length (cellList 0 \<lparr> data = [(''2024-01-01'', Fin 5), (''2024-01-09'', Fin 2)],
                startDate = Time 1704240000000, endDate = Time 1704844800000,
                baseColor = ''#239a3b'', cellSize = Fin 14, cellSpacing = Fin 4,
                weekStart = 1 \<rparr>) = 10"
proof -
  define q where "q = \<lparr> data = [(''2024-01-01'', Fin 5), (''2024-01-09'', Fin 2)],
                startDate = Time 1704240000000, endDate = Time 1704844800000,
                baseColor = ''#239a3b'', cellSize = Fin 14, cellSpacing = Fin 4,
                weekStart = 1 \<rparr>"
  have a: "alignedStart 0 q = Time 1704067200000" by (simp add: q_def date_eval)
  have t: "totalDays 0 q = Some 10" unfolding totalDays_def a by (simp add: q_def date_eval)
  have d: "addDays (Time 1704067200000) (Some 8) = Time 1704758400000"
    by (simp add: date_eval)
  have k: "toISOString (Time 1704758400000) = Inr ''2024-01-09T00:00:00.000Z''"
    by (simp add: date_eval)
  have l: "slice ''2024-01-09T00:00:00.000Z'' 0 10 = ''2024-01-09''" by (simp add: slice_def)
  have f: "round64 18 = Fin 18" by (simp add: round_eval)
  have s: "cellSize q = Fin 14" "cellSpacing q = Fin 4"
    "data q = [(''2024-01-01'', Fin 5), (''2024-01-09'', Fin 2)]"
    by (simp_all add: q_def)
  from cell_at_offset [of q 0 10 8] t show ?thesis
    unfolding q_def [symmetric] by (simp add: a k l f s d)
qed

lemma alignedStart_shift:
  assumes "weekStart p = 0 \<or> weekStart p = 1" "timeValue (startDate p) = Some s"
  shows "getDay tz (startDate p) = Some (weekDay tz s)"
    and "alignedStart tz p
           = addDays (startDate p) (Some (- ((weekDay tz s - weekStart p + 7) mod 7)))"
    and "alignedStart tz p
           = timeClip (s - (weekDay tz s - weekStart p + 7) mod 7 * msPerDay)"
proof -
  have g: "0 \<le> weekDay tz s" "weekDay tz s \<le> 6" by (simp_all add: weekDay_def)
  show gd: "getDay tz (startDate p) = Some (weekDay tz s)" by (simp add: getDay_def assms(2))
  have "0 \<le> weekDay tz s - weekStart p + 7" using g assms(1) by auto
  then have r: "jsRem (weekDay tz s - weekStart p + 7) 7 = (weekDay tz s - weekStart p + 7) mod 7"
    by (rule jsRem_nonneg)
  show al: "alignedStart tz p
           = addDays (startDate p) (Some (- ((weekDay tz s - weekStart p + 7) mod 7)))"
    by (simp add: alignedStart_def gd r)
  show "alignedStart tz p = timeClip (s - (weekDay tz s - weekStart p + 7) mod 7 * msPerDay)"
    unfolding al by (simp add: addDays_Some [OF assms(2)])
qed

text \<open>
  Moving back leaves the range of time values only from the first six days of the range:
  there \<open>alignedStart\<close> is the Invalid Date.
\<close>

lemma alignedStart_valid_iff:
  assumes "weekStart p = 0 \<or> weekStart p = 1" "timeValue (startDate p) = Some s"
  shows "validDate (alignedStart tz p)
           \<longleftrightarrow> - maxTime \<le> s - (weekDay tz s - weekStart p + 7) mod 7 * msPerDay"
proof -
  have "0 \<le> (weekDay tz s - weekStart p + 7) mod 7 * msPerDay" by (simp add: msPerDay_def)
  then have "s - (weekDay tz s - weekStart p + 7) mod 7 * msPerDay \<le> maxTime"
    using timeValue_range [OF assms(2)] by linarith
  then show ?thesis
    unfolding alignedStart_shift(3) [OF assms] validDate_def timeValue_timeClip by auto
qed

text \<open>
  C3.  For \<open>weekStart\<close> 0 or 1, \<open>alignedStart\<close> is \<open>startDate\<close> moved back by
  \<open>(getDay(startDate) - weekStart + 7) mod 7\<close> days; for \<open>weekStart = 1\<close> and a Wednesday it
  is two days before \<open>startDate\<close>.  Whenever \<open>alignedStart\<close> is a valid date, so is
  \<open>startDate\<close>, \<open>alignedStart\<close> falls on the weekday \<open>weekStart\<close>, and its time value is that
  of \<open>startDate\<close> less the days moved.
\<close>

theorem aligned_start_on_week_start:
  assumes "weekStart p = 0 \<or> weekStart p = 1"
  shows "alignedStart tz p
           = addDays (startDate p)
               (map_option (\<lambda>g. - ((g - weekStart p + 7) mod 7)) (getDay tz (startDate p))) \<and>
         (weekStart p = 1 \<and> getDay tz (startDate p) = Some 3
            \<longrightarrow> alignedStart tz p = addDays (startDate p) (Some (- 2))) \<and>
         (validDate (alignedStart tz p)
            \<longrightarrow> validDate (startDate p) \<and>
                getDay tz (alignedStart tz p) = Some (weekStart p) \<and>
                (\<exists>s. timeValue (startDate p) = Some s \<and>
                     timeValue (alignedStart tz p)
                       = Some (s - (weekDay tz s - weekStart p + 7) mod 7 * msPerDay)))"
proof (cases "timeValue (startDate p)")
  case None
  then have "alignedStart tz p = InvalidDate" "getDay tz (startDate p) = None"
    by (simp_all add: alignedStart_def addDays_invalid getDay_def)
  then show ?thesis by (simp add: addDays_def validDate_def timeValue_InvalidDate)
next
  case (Some s)
  define g where "g = weekDay tz s"
  define j where "j = (g - weekStart p + 7) mod 7"
  note sh = alignedStart_shift [OF assms Some, of tz, folded g_def, folded j_def]
  have 1: "alignedStart tz p
           = addDays (startDate p)
               (map_option (\<lambda>g. - ((g - weekStart p + 7) mod 7)) (getDay tz (startDate p)))"
    by (simp add: sh(1,2) j_def)
  have 2: "alignedStart tz p = addDays (startDate p) (Some (- 2))"
    if "weekStart p = 1" "getDay tz (startDate p) = Some 3"
  proof -
    from that have "j = 2" by (simp add: sh(1) j_def)
    then show ?thesis by (simp add: sh(2))
  qed
  have 3: "validDate (startDate p) \<and> getDay tz (alignedStart tz p) = Some (weekStart p) \<and>
           (\<exists>s. timeValue (startDate p) = Some s \<and>
                timeValue (alignedStart tz p)
                  = Some (s - (weekDay tz s - weekStart p + 7) mod 7 * msPerDay))"
    if v: "validDate (alignedStart tz p)"
  proof -
    from v have a: "timeValue (alignedStart tz p) = Some (s - j * msPerDay)"
      unfolding sh(3) validDate_def timeValue_timeClip by (simp split: if_splits)
    have "localDay tz (s - j * msPerDay) = localDay tz s - j"
    proof -
      have "s - j * msPerDay + tz = (s + tz) + (- j) * msPerDay" by simp
      then show ?thesis
        unfolding localDay_def by (simp only: div_mult_self1 msPerDay_def)
    qed
    then have "weekDay tz (s - j * msPerDay) = (localDay tz s + 4 - j) mod 7"
      unfolding weekDay_def by (simp only: diff_add_eq)
    also have "\<dots> = (localDay tz s + 4 - (g - weekStart p + 7)) mod 7"
      unfolding j_def by (rule mod_diff_right_eq)
    also have "\<dots> = (7 * ((localDay tz s + 4) div 7 - 1) + weekStart p) mod 7"
      unfolding g_def weekDay_def by (simp add: algebra_simps minus_mod_eq_mult_div [symmetric])
    also have "\<dots> = weekStart p mod 7" by (simp only: mod_mult_self4)
    also have "\<dots> = weekStart p" using assms by auto
    finally have b: "getDay tz (alignedStart tz p) = Some (weekStart p)"
      by (simp add: getDay_def a)
    from a b Some show ?thesis by (simp add: validDate_def j_def g_def)
  qed
  from 1 2 3 show ?thesis by blast
qed

theorem aligned_start_on_week_start_witness:
  "getDay 0 (Time 1704240000000) = Some 3 \<and>
   alignedStart 0 \<lparr> data = [], startDate = Time 1704240000000, endDate = Time 1704844800000,
                    baseColor = ''#239a3b'', cellSize = Fin 14, cellSpacing = Fin 4,
                    weekStart = 1 \<rparr> = Time 1704067200000 \<and>
   validDate (Time 1704067200000) \<and>
   getDay 0 (Time 1704067200000) = Some 1 \<and>
   addDays (Time 1704240000000) (Some (- 2)) = Time 1704067200000"
proof -
  define q where "q = \<lparr> data = [], startDate = Time 1704240000000, endDate = Time 1704844800000,
                    baseColor = ''#239a3b'', cellSize = Fin 14, cellSpacing = Fin 4,
                    weekStart = 1 \<rparr>"
  have s: "startDate q = Time 1704240000000" "weekStart q = 1" by (simp_all add: q_def)
  have g: "getDay 0 (Time 1704240000000) = Some 3" by (simp add: date_eval)
  have d: "addDays (Time 1704240000000) (Some (- 2)) = Time 1704067200000"
    by (simp add: date_eval)
  have v: "validDate (Time 1704067200000)" by (simp add: date_eval)
  have w: "weekStart q = 0 \<or> weekStart q = 1" by (simp add: s)
  from aligned_start_on_week_start [OF w, of 0]
  have "weekStart q = 1 \<and> getDay 0 (startDate q) = Some 3
          \<longrightarrow> alignedStart 0 q = addDays (startDate q) (Some (- 2))"
    and b: "validDate (alignedStart 0 q) \<longrightarrow> getDay 0 (alignedStart 0 q) = Some (weekStart q)"
    by blast+
  then have a: "alignedStart 0 q = Time 1704067200000" by (simp add: s g d)
  from b v have "getDay 0 (Time 1704067200000) = Some 1" by (simp add: a s)
  with a g d v show ?thesis unfolding q_def [symmetric] by simp
qed

lemma totalWeeks_exact:
  assumes "totalDays tz p = Some n" "0 \<le> n"
  shows "totalWeeks tz p = Fin (of_int \<lceil>of_int n / (7 :: rat)\<rceil>)"
    and "\<lceil>of_int n / (7 :: rat)\<rceil> \<le> 28571429"
    and "0 \<le> \<lceil>of_int n / (7 :: rat)\<rceil>"
proof -
  have b: "n \<le> 200000001" using assms(1) by (rule totalDays_bound)
  then have "n < 2 ^ 49" by simp
  with assms(2) show "totalWeeks tz p = Fin (of_int \<lceil>of_int n / (7 :: rat)\<rceil>)"
    unfolding totalWeeks_def ceiling_sevenths assms(1) toNumber_def option.case
    by (intro fdiv_seven(2))
  show "\<lceil>of_int n / (7 :: rat)\<rceil> \<le> 28571429"
    and "0 \<le> \<lceil>of_int n / (7 :: rat)\<rceil>"
    using b assms(2) unfolding ceiling_sevenths by simp_all
qed

text \<open>
  C7.  For a day count that is not negative, \<open>totalWeeks\<close> is the ceiling of
  \<open>totalDays / 7\<close>, the width of the canvas is
  \<open>totalWeeks * (cellSize + cellSpacing) + 50\<close> and its height is
  \<open>7 * (cellSize + cellSpacing) + 20\<close>, in the arithmetic of the source; for integral
  sizes of at most 10000 pixels these are the exact integers.
\<close>

theorem total_weeks_and_canvas:
  assumes "totalDays tz p = Some n" "0 \<le> n"
  shows "totalWeeks tz p = Fin (of_int \<lceil>of_int n / (7 :: rat)\<rceil>) \<and>
         svgWidth tz p =
           fadd (fmul (Fin (of_int \<lceil>of_int n / (7 :: rat)\<rceil>))
                      (fadd (cellSize p) (cellSpacing p))) (Fin 50) \<and>
         svgHeight p = fadd (fmul (Fin 7) (fadd (cellSize p) (cellSpacing p))) (Fin 20) \<and>
         (\<forall>a b. cellSize p = Fin (of_int a) \<and> cellSpacing p = Fin (of_int b) \<and>
                \<bar>a\<bar> \<le> 10000 \<and> \<bar>b\<bar> \<le> 10000 \<longrightarrow>
            svgWidth tz p = Fin (of_int (\<lceil>of_int n / (7 :: rat)\<rceil> * (a + b) + 50)) \<and>
            svgHeight p = Fin (of_int (7 * (a + b) + 20)))"
proof -
  define w where "w = \<lceil>of_int n / (7 :: rat)\<rceil>"
  note tw = totalWeeks_exact [OF assms, folded w_def]
  have exact: "svgWidth tz p = Fin (of_int (w * (a + b) + 50)) \<and>
               svgHeight p = Fin (of_int (7 * (a + b) + 20))"
    if s: "cellSize p = Fin (of_int a)" "cellSpacing p = Fin (of_int b)"
      and ab: "\<bar>a\<bar> \<le> 10000" "\<bar>b\<bar> \<le> 10000" for a b
  proof -
    have c: "\<bar>a + b\<bar> \<le> 20000" using ab by simp
    have "\<bar>w * (a + b)\<bar> \<le> 28571429 * 20000"
      unfolding abs_mult using tw(2,3) c by (intro mult_mono) simp_all
    then have wb: "\<bar>w * (a + b)\<bar> \<le> 571428580000" by simp
    have "\<bar>7 * (a + b)\<bar> \<le> 140000" using c by simp
    note r = round64_of_int [of "a + b"] round64_of_int [of "w * (a + b)"]
      round64_of_int [of "w * (a + b) + 50"] round64_of_int [of "7 * (a + b)"]
      round64_of_int [of "7 * (a + b) + 20"]
    have 1: "fadd (cellSize p) (cellSpacing p) = Fin (of_int (a + b))"
      using r(1) c by (simp add: s)
    have 2: "fmul (Fin (of_int w)) (Fin (of_int (a + b))) = Fin (of_int (w * (a + b)))"
      using r(2) wb by simp
    have 3: "fadd (Fin (of_int (w * (a + b)))) (Fin 50) = Fin (of_int (w * (a + b) + 50))"
      using r(3) wb by simp
    have 4: "fmul (Fin 7) (Fin (of_int (a + b))) = Fin (of_int (7 * (a + b)))"
      using r(4) c by simp
    have 5: "fadd (Fin (of_int (7 * (a + b)))) (Fin 20) = Fin (of_int (7 * (a + b) + 20))"
      using r(5) c by simp
    show ?thesis
      by (simp only: svgWidth_def svgHeight_def tw(1) 1 2 3 4 5)
  qed
  from tw(1) exact show ?thesis
    unfolding w_def [symmetric] by (simp add: svgWidth_def svgHeight_def)
qed

theorem total_weeks_and_canvas_witness:
  "totalDays 0 \<lparr> data = [], startDate = Time 1704240000000, endDate = Time 1704844800000,
                 baseColor = ''#239a3b'', cellSize = Fin 14, cellSpacing = Fin 4,
                 weekStart = 1 \<rparr> = Some 10 \<and>
   totalWeeks 0 \<lparr> data = [], startDate = Time 1704240000000, endDate = Time 1704844800000,
                  baseColor = ''#239a3b'', cellSize = Fin 14, cellSpacing = Fin 4,
                  weekStart = 1 \<rparr> = Fin 2 \<and>
   svgWidth 0 \<lparr> data = [], startDate = Time 1704240000000, endDate = Time 1704844800000,
                baseColor = ''#239a3b'', cellSize = Fin 14, cellSpacing = Fin 4,
                weekStart = 1 \<rparr> = Fin 86 \<and>
   svgHeight \<lparr> data = [], startDate = Time 1704240000000, endDate = Time 1704844800000,
               baseColor = ''#239a3b'', cellSize = Fin 14, cellSpacing = Fin 4,
               weekStart = 1 \<rparr> = Fin 146"
proof -
  define q where "q = \<lparr> data = [], startDate = Time 1704240000000, endDate = Time 1704844800000,
                 baseColor = ''#239a3b'', cellSize = Fin 14, cellSpacing = Fin 4,
                 weekStart = 1 \<rparr>"
  have a: "alignedStart 0 q = Time 1704067200000" by (simp add: q_def date_eval)
  have t: "totalDays 0 q = Some 10" unfolding totalDays_def a by (simp add: q_def date_eval)
  have s: "cellSize q = Fin (of_int 14)" "cellSpacing q = Fin (of_int 4)"
    by (simp_all add: q_def)
  have c: "\<lceil>(10 :: rat) / 7\<rceil> = 2" by simp
  have e: "fadd (fmul (Fin 2) (round64 18)) (Fin 50) = Fin 86"
    "fadd (fmul (Fin 7) (round64 18)) (Fin 20) = Fin 146"
    by (simp_all add: round_eval)
  from total_weeks_and_canvas [of 0 q 10] t s have
    "totalWeeks 0 q = Fin 2 \<and> svgWidth 0 q = Fin 86 \<and> svgHeight q = Fin 146"
    by (simp add: c e)
  with t show ?thesis unfolding q_def [symmetric] by simp
qed

lemma cellList_empty_iff:
  "(cellList tz p = []) = (case totalDays tz p of None \<Rightarrow> True | Some n \<Rightarrow> n \<le> 0)"
proof (cases "totalDays tz p")
  case None
  then show ?thesis by (simp add: cellList_NaN)
next
  case (Some n)
  have "(cellList tz p = []) = (length (cellList tz p) = 0)" by simp
  also have "\<dots> = (n \<le> 0)" by (simp only: length_cellList [OF Some] nat_0_iff)
  finally show ?thesis by (simp add: Some)
qed

lemma full_days_before:
  assumes "sgn (d :: int) * (\<bar>d\<bar> div 86400000) \<le> - k" "0 < k"
  shows "d \<le> - k * 86400000"
proof -
  have neg: "d < 0"
  proof (rule ccontr)
    assume "\<not> d < 0"
    then have "0 \<le> sgn d * (\<bar>d\<bar> div 86400000)" by (simp add: sgn_if)
    with assms show False by simp
  qed
  then have "k \<le> (- d) div 86400000" using assms(1) by simp
  then have "k * 86400000 \<le> (- d) div 86400000 * 86400000" by simp
  also have "\<dots> \<le> - d" using neg by (simp add: minus_mod_eq_div_mult [symmetric])
  finally show ?thesis by simp
qed

lemma inverted_by_a_week:
  assumes w: "weekStart p = 0 \<or> weekStart p = 1"
    and k: "differenceInDays (endDate p) (startDate p) = Some k" "k \<le> - 7"
  shows "\<exists>n. totalDays tz p = Some n \<and> n \<le> 0"
proof -
  from k(1) obtain e s where e: "timeValue (endDate p) = Some e"
    and s: "timeValue (startDate p) = Some s"
    and ks: "k = sgn (e - s) * (\<bar>e - s\<bar> div msPerDay)"
    by (auto simp: differenceInDays_def Let_def split: option.splits)
  have "sgn (e - s) * (\<bar>e - s\<bar> div 86400000) \<le> - 7" using k(2) ks by (simp add: msPerDay_def)
  then have "e - s \<le> - 7 * 86400000" by (rule full_days_before) simp
  then have es: "e + 604800000 \<le> s" by simp
  define g where "g = weekDay tz s"
  define j where "j = jsRem (g - weekStart p + 7) 7"
  have g: "0 \<le> g" "g \<le> 6" by (simp_all add: g_def weekDay_def)
  have "0 \<le> g - weekStart p + 7" using g w by auto
  then have "j = (g - weekStart p + 7) mod 7" by (simp add: jsRem_nonneg j_def)
  then have j: "0 \<le> j" "j \<le> 6" by simp_all
  define a where "a = s - j * 86400000"
  have ab: "e + 86400000 \<le> a" "a \<le> s" using es j by (simp_all add: a_def)
  then have "\<bar>a\<bar> \<le> maxTime"
    using timeValue_range [OF e] timeValue_range [OF s] by linarith
  moreover have "alignedStart tz p = timeClip a"
    by (simp add: alignedStart_def getDay_def s addDays_Some a_def j_def g_def msPerDay_def)
  ultimately have al: "timeValue (alignedStart tz p) = Some a" by (simp add: timeValue_timeClip)
  define d where "d = e - a"
  have d: "d \<le> - 86400000" using ab by (simp add: d_def)
  then have "1 \<le> (- d) div 86400000" by simp
  with d have "sgn d * (\<bar>d\<bar> div 86400000) + 1 \<le> 0" by simp
  then show ?thesis
    by (simp add: totalDays_def differenceInDays_def e al Let_def d_def msPerDay_def)
qed

text \<open>
  C8, as amended.  No input makes the loops raise an error.  The list of cells is empty
  exactly when \<open>totalDays\<close> is NaN or at most 0: when \<open>endDate\<close> or \<open>alignedStart\<close> is the
  Invalid Date, or \<open>differenceInDays(endDate, alignedStart)\<close> is at most -1, that is
  when \<open>endDate\<close> lies at least one full day before \<open>alignedStart\<close>; then there are no
  labels either.  For \<open>weekStart\<close> 0 or 1 this is the case, with a \<open>totalDays\<close> that is
  not positive, whenever \<open>differenceInDays(endDate, startDate)\<close> is at most -7.
\<close>

theorem empty_grid_iff:
  "cells tz p = Inr (cellList tz p) \<and>
   monthLabels tz p = Inr (labelList tz p) \<and>
   (cellList tz p = []) = (case totalDays tz p of None \<Rightarrow> True | Some n \<Rightarrow> n \<le> 0) \<and>
   (cellList tz p = [] \<longrightarrow> labelList tz p = []) \<and>
   (totalDays tz p = None) = (\<not> validDate (endDate p) \<or> \<not> validDate (alignedStart tz p)) \<and>
   (\<forall>k. differenceInDays (endDate p) (alignedStart tz p) = Some k
          \<longrightarrow> totalDays tz p = Some (k + 1) \<and> (cellList tz p = []) = (k \<le> - 1)) \<and>
   (\<forall>k. (weekStart p = 0 \<or> weekStart p = 1) \<and>
         differenceInDays (endDate p) (startDate p) = Some k \<and> k \<le> - 7
          \<longrightarrow> (\<exists>n. totalDays tz p = Some n \<and> n \<le> 0) \<and> cellList tz p = [])"
proof -
  have 4: "totalDays tz p = Some (k + 1) \<and> (cellList tz p = []) = (k \<le> - 1)"
    if "differenceInDays (endDate p) (alignedStart tz p) = Some k" for k
  proof -
    from that have "totalDays tz p = Some (k + 1)" by (simp add: totalDays_def)
    moreover have "(k + 1 \<le> 0) = (k \<le> - 1)" by linarith
    ultimately show ?thesis by (simp add: cellList_empty_iff)
  qed
  have 5: "(\<exists>n. totalDays tz p = Some n \<and> n \<le> 0) \<and> cellList tz p = []"
    if "weekStart p = 0 \<or> weekStart p = 1"
      "differenceInDays (endDate p) (startDate p) = Some k" "k \<le> - 7" for k
  proof -
    from inverted_by_a_week [OF that] obtain n
      where "totalDays tz p = Some n" "n \<le> 0" by blast
    then show ?thesis by (simp add: cellList_empty_iff)
  qed
  from 4 5 show ?thesis
    using cells_complete [of tz p] monthLabels_complete [of tz p] cellList_empty_iff [of tz p]
      labelList_empty [of tz p] totalDays_None [of tz p]
    by blast
qed

theorem empty_grid_iff_witness:
  "differenceInDays (Time 1703548800000) (Time 1704240000000) = Some (- 8) \<and>
   differenceInDays (Time 1703548800000) (Time 1703980800000) = Some (- 5) \<and>
   totalDays 0 \<lparr> data = [], startDate = Time 1704240000000, endDate = Time 1703548800000,
                 baseColor = ''#239a3b'', cellSize = Fin 14, cellSpacing = Fin 4,
                 weekStart = 0 \<rparr> = Some (- 4) \<and>
   cells 0 \<lparr> data = [], startDate = Time 1704240000000, endDate = Time 1703548800000,
             baseColor = ''#239a3b'', cellSize = Fin 14, cellSpacing = Fin 4,
             weekStart = 0 \<rparr> = Inr [] \<and>
   monthLabels 0 \<lparr> data = [], startDate = Time 1704240000000, endDate = Time 1703548800000,
                   baseColor = ''#239a3b'', cellSize = Fin 14, cellSpacing = Fin 4,
                   weekStart = 0 \<rparr> = Inr []"
proof -
  define q where "q = \<lparr> data = [], startDate = Time 1704240000000, endDate = Time 1703548800000,
                 baseColor = ''#239a3b'', cellSize = Fin 14, cellSpacing = Fin 4,
                 weekStart = 0 \<rparr>"
  have k: "differenceInDays (Time 1703548800000) (Time 1704240000000) = Some (- 8)"
    "differenceInDays (Time 1703548800000) (Time 1703980800000) = Some (- 5)"
    by (simp_all add: date_eval)
  have a: "alignedStart 0 q = Time 1703980800000" by (simp add: q_def date_eval)
  have t: "totalDays 0 q = Some (- 4)" unfolding totalDays_def a by (simp add: q_def date_eval)
  have s: "startDate q = Time 1704240000000" "endDate q = Time 1703548800000" "weekStart q = 0"
    by (simp_all add: q_def)
  from empty_grid_iff [of 0 q] have "cells 0 q = Inr [] \<and> monthLabels 0 q = Inr []"
    by (simp add: s k t)
  with k t show ?thesis unfolding q_def [symmetric] by simp
qed

text \<open>
  C8, as stated, fails: with a start on Wednesday 2024-01-03, an end on Tuesday 2024-01-02
  and weeks that begin on Sunday, the grid is aligned to Sunday 2023-12-31 and three cells
  are produced although the end is before the start.
\<close>

theorem inverted_range_counterexample:
  "dateLess (endDate \<lparr> data = [], startDate = Time 1704240000000, endDate = Time 1704153600000,
                      baseColor = ''#239a3b'', cellSize = Fin 14, cellSpacing = Fin 4,
                      weekStart = 0 \<rparr>)
            (startDate \<lparr> data = [], startDate = Time 1704240000000, endDate = Time 1704153600000,
                        baseColor = ''#239a3b'', cellSize = Fin 14, cellSpacing = Fin 4,
                        weekStart = 0 \<rparr>) \<and>
   totalDays 0 \<lparr> data = [], startDate = Time 1704240000000, endDate = Time 1704153600000,
                 baseColor = ''#239a3b'', cellSize = Fin 14, cellSpacing = Fin 4,
                 weekStart = 0 \<rparr> = Some 3 \<and>
   cells 0 \<lparr> data = [], startDate = Time 1704240000000, endDate = Time 1704153600000,
             baseColor = ''#239a3b'', cellSize = Fin 14, cellSpacing = Fin 4,
             weekStart = 0 \<rparr>
     = Inr [\<lparr> date = Time 1703980800000, count = Fin 0, cell.x = Fin 0, y = Fin 0 \<rparr>,
            \<lparr> date = Time 1704067200000, count = Fin 0, cell.x = Fin 0, y = Fin 18 \<rparr>,
            \<lparr> date = Time 1704153600000, count = Fin 0, cell.x = Fin 0, y = Fin 36 \<rparr>]"
proof -
  define q where "q = \<lparr> data = [], startDate = Time 1704240000000, endDate = Time 1704153600000,
                      baseColor = ''#239a3b'', cellSize = Fin 14, cellSpacing = Fin 4,
                      weekStart = 0 \<rparr>"
  have l: "dateLess (Time 1704153600000) (Time 1704240000000)" by (simp add: date_eval)
  have a: "alignedStart 0 q = Time 1703980800000" by (simp add: q_def date_eval)
  have v: "timeValue (Time 1703980800000) = Some 1703980800000" by (simp add: date_eval)
  have t: "totalDays 0 q = Some 3" unfolding totalDays_def a by (simp add: q_def date_eval)
  have u: "[0 .. 2 :: int] = [0, 1, 2]" by (simp add: upto.simps)
  have f: "data q = []" "cellSize q = Fin 14" "cellSpacing q = Fin 4" by (simp_all add: q_def)
  note m = makeCell_Inr [OF t, of 1703980800000, unfolded a, OF v]
  have "cells 0 q
     = Inr [\<lparr> date = Time 1703980800000, count = Fin 0, cell.x = Fin 0, y = Fin 0 \<rparr>,
            \<lparr> date = Time 1704067200000, count = Fin 0, cell.x = Fin 0, y = Fin 18 \<rparr>,
            \<lparr> date = Time 1704153600000, count = Fin 0, cell.x = Fin 0, y = Fin 36 \<rparr>]"
    unfolding cells_eq [OF t]
    by (simp add: u m msPerDay_def jsRem_def lookupCount_def f round_eval)
  with l t show ?thesis unfolding q_def [symmetric] by (simp add: q_def)
qed

lemma num_le_total: "u \<noteq> NaN \<Longrightarrow> v \<noteq> NaN \<Longrightarrow> num_le u v \<or> num_le v u"
  by (cases u; cases v) auto

lemma num_le_antisym: "num_le u v \<Longrightarrow> num_le v u \<Longrightarrow> u = v"
  by (cases u; cases v) auto

lemma mathMax2_cases:
  assumes "u \<noteq> NaN" "v \<noteq> NaN"
  shows "mathMax2 u v \<noteq> NaN" "mathMax2 u v = u \<or> mathMax2 u v = v"
    "num_le u (mathMax2 u v)" "num_le v (mathMax2 u v)"
  using assms num_le_total [OF assms] by (auto simp: mathMax2_def num_le_refl)

lemma foldl_mathMax2:
  assumes "NaN \<notin> set vs" "acc \<noteq> NaN"
  shows "foldl mathMax2 acc vs \<noteq> NaN \<and>
         foldl mathMax2 acc vs \<in> insert acc (set vs) \<and>
         num_le acc (foldl mathMax2 acc vs) \<and>
         (\<forall>v \<in> set vs. num_le v (foldl mathMax2 acc vs))"
  using assms
proof (induction vs arbitrary: acc)
  case Nil
  then show ?case by (simp add: num_le_refl)
next
  case (Cons v vs)
  then have v: "v \<noteq> NaN" and vs: "NaN \<notin> set vs" by auto
  note m = mathMax2_cases [OF Cons.prems(2) v]
  from Cons.IH [OF vs m(1)] m(2,3,4) show ?case
    by (auto intro: num_le_trans)
qed

text \<open>
  C9.  The maximum used for scaling is the greatest of the values of \<open>data\<close> and 1: it is
  one of them, at least 1 and at least every value; it is 1 when no value exceeds 1, in
  particular for empty \<open>data\<close>; and it is never zero, so that \<open>count / maxCount\<close> never
  divides by zero.  The values of \<open>data\<close> are numbers, not NaN.
\<close>

theorem max_count_floor:
  assumes "NaN \<notin> snd ` set (data p)"
  shows "maxCount p \<in> insert (Fin 1) (snd ` set (data p)) \<and>
         num_le (Fin 1) (maxCount p) \<and>
         (\<forall>v \<in> snd ` set (data p). num_le v (maxCount p)) \<and>
         ((\<forall>v \<in> snd ` set (data p). num_le v (Fin 1)) \<longrightarrow> maxCount p = Fin 1) \<and>
         (data p = [] \<longrightarrow> maxCount p = Fin 1) \<and>
         maxCount p \<noteq> Fin 0"
proof -
  have "NaN \<notin> set (map snd (data p) @ [Fin 1])" using assms by simp
  from foldl_mathMax2 [OF this, of NegInf]
  have m: "maxCount p \<in> insert (Fin 1) (snd ` set (data p)) \<or> maxCount p = NegInf"
    and one: "num_le (Fin 1) (maxCount p)"
    and ub: "\<forall>v \<in> snd ` set (data p). num_le v (maxCount p)"
    by (auto simp: maxCount_def mathMax_def)
  from one have ninf: "maxCount p \<noteq> NegInf" by auto
  with m have mem: "maxCount p \<in> insert (Fin 1) (snd ` set (data p))" by simp
  have small: "maxCount p = Fin 1" if le: "\<forall>v \<in> snd ` set (data p). num_le v (Fin 1)"
  proof (cases "maxCount p = Fin 1")
    case False
    with mem have "maxCount p \<in> snd ` set (data p)" by simp
    with le have "num_le (maxCount p) (Fin 1)" by blast
    then show ?thesis using one by (rule num_le_antisym)
  qed
  have "maxCount p \<noteq> Fin 0" using one by auto
  with mem one ub small show ?thesis by auto
qed

theorem max_count_floor_witness:
  "NaN \<notin> snd ` set [(''2024-01-01'', Fin 5), (''2024-01-09'', Fin 2)] \<and>
   maxCount \<lparr> data = [(''2024-01-01'', Fin 5), (''2024-01-09'', Fin 2)],
              startDate = Time 1704240000000, endDate = Time 1704844800000, baseColor = ''#239a3b'',
              cellSize = Fin 14, cellSpacing = Fin 4, weekStart = 1 \<rparr> = Fin 5 \<and>
   maxCount \<lparr> data = [], startDate = Time 1704240000000, endDate = Time 1704844800000,
              baseColor = ''#239a3b'', cellSize = Fin 14, cellSpacing = Fin 4,
              weekStart = 1 \<rparr> = Fin 1"
  using max_count_floor [of "\<lparr> data = [(''2024-01-01'', Fin 5), (''2024-01-09'', Fin 2)],
              startDate = Time 1704240000000, endDate = Time 1704844800000, baseColor = ''#239a3b'',
              cellSize = Fin 14, cellSpacing = Fin 4, weekStart = 1 \<rparr>"]
    max_count_floor [of "\<lparr> data = [], startDate = Time 1704240000000, endDate = Time 1704844800000,
              baseColor = ''#239a3b'', cellSize = Fin 14, cellSpacing = Fin 4,
              weekStart = 1 \<rparr>"]
  by auto

section \<open>Properties of the month labels\<close>

text \<open>
  The scan over the cells keeps, of the cells that are not before \<open>startDate\<close>, those
  whose month name has not been seen, in order.
\<close>

lemma filter_upt_Suc:
  "filter P [0..<Suc n] = (if P 0 then [0] else []) @ map Suc (filter (\<lambda>i. P (Suc i)) [0..<n])"
proof -
  have "[0..<Suc n] = 0 # map Suc [0..<n]"
    by (simp only: map_Suc_upt upt_conv_Cons [of 0 "Suc n"] zero_less_Suc if_True)
  then show ?thesis by (simp add: filter_map comp_def)
qed

lemma monthLabelsLoop_eq:
  "monthLabelsLoop tz sd cs seen labels =
     labels @ map (\<lambda>i. labelOf tz (filter (\<lambda>c. \<not> dateLess (date c) sd) cs ! i))
                (filter (\<lambda>i. cellMonth tz (filter (\<lambda>c. \<not> dateLess (date c) sd) cs ! i)
                              \<notin> seen \<union> cellMonth tz ` set (take i (filter (\<lambda>c. \<not> dateLess (date c) sd) cs)))
                   [0..<length (filter (\<lambda>c. \<not> dateLess (date c) sd) cs)])"
proof (induction cs arbitrary: seen labels)
  case Nil
  show ?case by simp
next
  case (Cons c cs)
  define vs where "vs = filter (\<lambda>c. \<not> dateLess (date c) sd) cs"
  define Q where "Q = (\<lambda>S i. cellMonth tz (vs ! i) \<notin> S \<union> cellMonth tz ` set (take i vs))"
  have IH: "monthLabelsLoop tz sd cs S L =
              L @ map (\<lambda>i. labelOf tz (vs ! i)) (filter (Q S) [0..<length vs])" for S L
    unfolding vs_def Q_def by (rule Cons.IH)
  show ?case
  proof (cases "dateLess (date c) sd")
    case True
    then have "filter (\<lambda>c. \<not> dateLess (date c) sd) (c # cs) = vs" by (simp add: vs_def)
    moreover have "monthLabelsLoop tz sd (c # cs) seen labels = monthLabelsLoop tz sd cs seen labels"
      using True by simp
    ultimately show ?thesis by (simp only: IH Q_def)
  next
    case False
    define m where "m = toLocaleMonthShort tz (date c)"
    define P where "P = (\<lambda>i. cellMonth tz ((c # vs) ! i)
                               \<notin> seen \<union> cellMonth tz ` set (take i (c # vs)))"
    have vis: "filter (\<lambda>c. \<not> dateLess (date c) sd) (c # cs) = c # vs"
      using False by (simp add: vs_def)
    have l0: "labelOf tz c = \<lparr> month = m, monthLabel.x = cell.x c \<rparr>"
      by (simp add: labelOf_def cellMonth_def m_def)
    have P0: "P 0 = (m \<notin> seen)" by (simp add: P_def cellMonth_def m_def)
    have PS: "P (Suc i) = Q (insert m seen) i" for i
      by (auto simp add: P_def Q_def cellMonth_def m_def)
    have "filter P [0..<Suc (length vs)] =
            (if m \<notin> seen then [0] else []) @ map Suc (filter (Q (insert m seen)) [0..<length vs])"
      by (simp only: filter_upt_Suc P0 PS)
    then have rhs: "map (\<lambda>i. labelOf tz ((c # vs) ! i)) (filter P [0..<length (c # vs)]) =
            (if m \<notin> seen then [labelOf tz c] else [])
              @ map (\<lambda>i. labelOf tz (vs ! i)) (filter (Q (insert m seen)) [0..<length vs])"
      by (simp add: comp_def del: upt_Suc)
    have lhs: "monthLabelsLoop tz sd (c # cs) seen labels =
            labels @ (if m \<notin> seen then [labelOf tz c] else [])
              @ map (\<lambda>i. labelOf tz (vs ! i)) (filter (Q (insert m seen)) [0..<length vs])"
    proof (cases "m \<in> seen")
      case True
      then have "insert m seen = seen" by auto
      with True False show ?thesis by (simp add: IH m_def [symmetric])
    next
      case notin: False
      with False show ?thesis by (simp add: IH m_def [symmetric] l0)
    qed
    show ?thesis unfolding vis lhs using rhs by (simp only: P_def)
  qed
qed

text \<open>First occurrences are distinct, and every value has one.\<close>

lemma first_occurrences_distinct:
  "distinct (map (\<lambda>i. f (vs ! i)) (filter (\<lambda>i. f (vs ! i) \<notin> f ` set (take i vs)) [0..<length vs]))"
proof -
  have "inj_on (\<lambda>i. f (vs ! i)) {i. i < length vs \<and> f (vs ! i) \<notin> f ` set (take i vs)}"
  proof (rule inj_onI)
    fix i j
    assume i: "i \<in> {i. i < length vs \<and> f (vs ! i) \<notin> f ` set (take i vs)}"
      and j: "j \<in> {i. i < length vs \<and> f (vs ! i) \<notin> f ` set (take i vs)}"
      and eq: "f (vs ! i) = f (vs ! j)"
    have earlier: False if "a < b" "b < length vs" "f (vs ! a) = f (vs ! b)"
      "f (vs ! b) \<notin> f ` set (take b vs)" for a b
    proof -
      have "vs ! a \<in> set (take b vs)"
        using that(1,2) by (metis in_set_conv_nth length_take min.absorb2 nth_take less_imp_le_nat)
      then have "f (vs ! a) \<in> f ` set (take b vs)" by (rule imageI)
      with that(3,4) show False by simp
    qed
    show "i = j"
    proof (rule ccontr)
      assume "i \<noteq> j"
      then consider "i < j" | "j < i" by linarith
      then show False
        using earlier [of i j] earlier [of j i] i j eq by cases auto
    qed
  qed
  then show ?thesis by (simp add: distinct_map)
qed

lemma first_occurrences_set:
  "(\<lambda>i. f (vs ! i)) ` set (filter (\<lambda>i. f (vs ! i) \<notin> f ` set (take i vs)) [0..<length vs])
     = f ` set vs"
proof (intro equalityI subsetI)
  fix s
  assume "s \<in> (\<lambda>i. f (vs ! i)) ` set (filter (\<lambda>i. f (vs ! i) \<notin> f ` set (take i vs)) [0..<length vs])"
  then show "s \<in> f ` set vs" by auto
next
  fix s
  assume "s \<in> f ` set vs"
  then obtain j where j: "j < length vs" "f (vs ! j) = s" by (auto simp: in_set_conv_nth)
  define i where "i = (LEAST i. i < length vs \<and> f (vs ! i) = s)"
  have i: "i < length vs \<and> f (vs ! i) = s"
    unfolding i_def using j by (intro LeastI [of "\<lambda>i. i < length vs \<and> f (vs ! i) = s" j]) simp
  have least: "\<not> (k < length vs \<and> f (vs ! k) = s)" if "k < i" for k
    using that unfolding i_def by (rule not_less_Least)
  have "f (vs ! i) \<notin> f ` set (take i vs)"
  proof
    assume "f (vs ! i) \<in> f ` set (take i vs)"
    then obtain c where c: "c \<in> set (take i vs)" "f c = f (vs ! i)" by auto
    then obtain k where k: "k < i" "k < length vs" "vs ! k = c"
      by (auto simp: in_set_conv_nth)
    with c i least [of k] show False by simp
  qed
  with i show "s \<in> (\<lambda>i. f (vs ! i)) ` set (filter (\<lambda>i. f (vs ! i) \<notin> f ` set (take i vs)) [0..<length vs])"
    by auto
qed

lemma labelList_eq:
  "labelList tz p =
     map (\<lambda>i. labelOf tz (visibleCells tz p ! i))
         (filter (firstOfMonth tz (visibleCells tz p)) [0 ..< length (visibleCells tz p)])"
  by (simp add: labelList_def monthLabels_def cells_complete monthLabelsLoop_eq visibleCells_def
      firstOfMonth_def [abs_def])

lemma month_labelOf: "month (labelOf tz c) = cellMonth tz c"
  by (simp add: labelOf_def)

lemma labelList_months:
  "map month (labelList tz p) =
     map (\<lambda>i. cellMonth tz (visibleCells tz p ! i))
         (filter (\<lambda>i. cellMonth tz (visibleCells tz p ! i)
                        \<notin> cellMonth tz ` set (take i (visibleCells tz p)))
            [0 ..< length (visibleCells tz p)])"
  by (simp add: labelList_eq month_labelOf comp_def firstOfMonth_def [abs_def])

lemma labelList_distinct: "distinct (map month (labelList tz p))"
  unfolding labelList_months by (rule first_occurrences_distinct)

lemma labelList_set: "set (map month (labelList tz p)) = cellMonth tz ` set (visibleCells tz p)"
  unfolding labelList_months set_map by (rule first_occurrences_set)

text \<open>
  C1, as amended.  The scan completes without an error.  The labels are, in the order of
  the cells, the labels of exactly those cells on or after \<open>startDate\<close> that are the
  first of their month name among these cells, each with the \<open>x\<close> offset of that cell:
  one label for every month name that occurs, none twice, and none from the padding
  before \<open>startDate\<close>.  A month is identified by its abbreviated name alone: two cells
  have the same name exactly when they lie in the same month of the year, whatever their
  years.
\<close>

theorem month_labels_by_month_name:
  "cells tz p = Inr (cellList tz p) \<and>
   monthLabels tz p = Inr (labelList tz p) \<and>
   labelList tz p =
     map (\<lambda>i. labelOf tz (visibleCells tz p ! i))
         (filter (firstOfMonth tz (visibleCells tz p)) [0 ..< length (visibleCells tz p)]) \<and>
   distinct (map month (labelList tz p)) \<and>
   set (map month (labelList tz p)) = cellMonth tz ` set (visibleCells tz p) \<and>
   (\<forall>c d. (cellMonth tz c = cellMonth tz d)
            = (map_option snd (yearMonth tz (date c)) = map_option snd (yearMonth tz (date d))))"
  using cells_complete monthLabels_complete labelList_eq labelList_distinct labelList_set
  by (simp add: cellMonth_def toLocaleMonthShort_eq_iff)

text \<open>The first cell, when it is not padding, gives the first label.\<close>

lemma cellList_date:
  assumes "totalDays tz p = Some n" "0 \<le> i" "i < n"
  shows "date (cellList tz p ! nat i) = addDays (alignedStart tz p) (Some i)"
proof -
  from totalDays_Some [OF assms(1)] obtain a
    where a: "timeValue (alignedStart tz p) = Some a" by blast
  from makeCell_Inr [OF assms(1) a assms(2,3)] cellList_nth [OF assms(1) a assms(2,3)]
  show ?thesis by (simp add: loop_date(1) [OF assms(1) a assms(2,3)])
qed

lemma visible_cell:
  assumes "totalDays tz p = Some n" "0 \<le> i" "i < n"
    and "\<not> dateLess (addDays (alignedStart tz p) (Some i)) (startDate p)"
  shows "cellList tz p ! nat i \<in> set (visibleCells tz p)"
proof -
  have "nat i < length (cellList tz p)" using assms(2,3) by (simp add: length_cellList [OF assms(1)])
  then have "cellList tz p ! nat i \<in> set (cellList tz p)" by (rule nth_mem)
  with assms(4) show ?thesis by (simp add: visibleCells_def cellList_date [OF assms(1,2,3)])
qed

lemma first_label:
  assumes "totalDays tz p = Some n" "0 < n" "\<not> dateLess (alignedStart tz p) (startDate p)"
  shows "\<exists>rest. labelList tz p = labelOf tz (cellList tz p ! 0) # rest"
proof -
  define c0 where "c0 = cellList tz p ! 0"
  define cs where "cs = map (\<lambda>j. projr (makeCell tz p j)) [1 .. n - 1]"
  define m where "m = toLocaleMonthShort tz (date c0)"
  from totalDays_Some [OF assms(1)] obtain a
    where a: "timeValue (alignedStart tz p) = Some a" by blast
  have "[0 .. n - 1] = 0 # [1 .. n - 1]"
    using assms(2) by (simp add: upto_rec1)
  then have c: "cellList tz p = c0 # cs"
    by (simp add: cellList_eq [OF assms(1)] c0_def cs_def)
  have "date c0 = addDays (alignedStart tz p) (Some 0)"
    using cellList_date [OF assms(1), of 0] assms(2) by (simp add: c0_def)
  moreover have "dateLess (addDays (alignedStart tz p) (Some 0)) d = dateLess (alignedStart tz p) d" for d
    using timeValue_range [OF a] by (simp add: dateLess_def addDays_Some [OF a] timeValue_timeClip a)
  ultimately have v: "\<not> dateLess (date c0) (startDate p)"
    using assms(3) by simp
  have l0: "labelOf tz c0 = \<lparr> month = m, monthLabel.x = cell.x c0 \<rparr>"
    by (simp add: labelOf_def cellMonth_def m_def)
  have "monthLabels tz p
          = Inr (monthLabelsLoop tz (startDate p) cs (insert m {}) ([] @ [labelOf tz c0]))"
    unfolding monthLabels_def cells_complete c using v by (simp add: m_def [symmetric] l0)
  then have "labelList tz p = monthLabelsLoop tz (startDate p) cs (insert m {}) ([] @ [labelOf tz c0])"
    by (simp add: labelList_def)
  then have "\<exists>rest. labelList tz p = ([] @ [labelOf tz c0]) @ rest"
    by (simp only: monthLabelsLoop_eq) blast
  then show ?thesis by (simp add: c0_def)
qed

lemma only_one_label_per_name:
  assumes "distinct (map month (l # rest))"
  shows "filter (\<lambda>k. month k = month l) (l # rest) = [l]"
proof -
  from assms have "month l \<notin> month ` set rest" by simp
  then have "\<forall>k \<in> set rest. month k \<noteq> month l" by (metis image_eqI)
  then have "filter (\<lambda>k. month k = month l) rest = []"
    by (simp add: filter_empty_conv)
  then show ?thesis by simp
qed

theorem month_labels_by_month_name_witness:
  "monthLabels 0 \<lparr> data = [], startDate = Time 1706227200000, endDate = Time 1706745600000,
                   baseColor = ''#239a3b'', cellSize = Fin 14, cellSpacing = Fin 4,
                   weekStart = 1 \<rparr>
     = Inr [\<lparr> month = ''Jan'', monthLabel.x = Fin 0 \<rparr>, \<lparr> month = ''Feb'', monthLabel.x = Fin 18 \<rparr>]"
proof -
  define q where "q = \<lparr> data = [], startDate = Time 1706227200000, endDate = Time 1706745600000,
                   baseColor = ''#239a3b'', cellSize = Fin 14, cellSpacing = Fin 4,
                   weekStart = 1 \<rparr>"
  have a: "alignedStart 0 q = Time 1705881600000" by (simp add: q_def date_eval)
  have v: "timeValue (Time 1705881600000) = Some 1705881600000" by (simp add: date_eval)
  have t: "totalDays 0 q = Some 11" unfolding totalDays_def a by (simp add: q_def date_eval)
  have u: "[0 .. 10 :: int] = [0, 1, 2, 3, 4, 5, 6, 7, 8, 9, 10]" by (simp add: upto.simps)
  have f: "data q = []" "cellSize q = Fin 14" "cellSpacing q = Fin 4"
    and s: "startDate q = Time 1706227200000" by (simp_all add: q_def)
  note m = makeCell_Inr [OF t, of 1705881600000, unfolded a, OF v]
  have c: "cellList 0 q =
      [\<lparr>date = Time 1705881600000, count = Fin 0, cell.x = Fin 0, y = Fin 0\<rparr>,
       \<lparr>date = Time 1705968000000, count = Fin 0, cell.x = Fin 0, y = Fin 18\<rparr>,
       \<lparr>date = Time 1706054400000, count = Fin 0, cell.x = Fin 0, y = Fin 36\<rparr>,
       \<lparr>date = Time 1706140800000, count = Fin 0, cell.x = Fin 0, y = Fin 54\<rparr>,
       \<lparr>date = Time 1706227200000, count = Fin 0, cell.x = Fin 0, y = Fin 72\<rparr>,
       \<lparr>date = Time 1706313600000, count = Fin 0, cell.x = Fin 0, y = Fin 90\<rparr>,
       \<lparr>date = Time 1706400000000, count = Fin 0, cell.x = Fin 0, y = Fin 108\<rparr>,
       \<lparr>date = Time 1706486400000, count = Fin 0, cell.x = Fin 18, y = Fin 0\<rparr>,
       \<lparr>date = Time 1706572800000, count = Fin 0, cell.x = Fin 18, y = Fin 18\<rparr>,
       \<lparr>date = Time 1706659200000, count = Fin 0, cell.x = Fin 18, y = Fin 36\<rparr>,
       \<lparr>date = Time 1706745600000, count = Fin 0, cell.x = Fin 18, y = Fin 54\<rparr>]"
    unfolding cellList_eq [OF t]
    by (simp add: u m msPerDay_def jsRem_def lookupCount_def f round_eval)
  have l: "\<not> dateLess (Time 1706227200000) (Time 1706227200000)"
    "\<not> dateLess (Time 1706313600000) (Time 1706227200000)"
    "\<not> dateLess (Time 1706400000000) (Time 1706227200000)"
    "\<not> dateLess (Time 1706486400000) (Time 1706227200000)"
    "\<not> dateLess (Time 1706572800000) (Time 1706227200000)"
    "\<not> dateLess (Time 1706659200000) (Time 1706227200000)"
    "\<not> dateLess (Time 1706745600000) (Time 1706227200000)"
    "dateLess (Time 1705881600000) (Time 1706227200000)"
    "dateLess (Time 1705968000000) (Time 1706227200000)"
    "dateLess (Time 1706054400000) (Time 1706227200000)"
    "dateLess (Time 1706140800000) (Time 1706227200000)"
    by (simp_all add: dateLess_def timeValue_def maxTime_def)
  have n: "toLocaleMonthShort 0 (Time 1706227200000) = ''Jan''"
    "toLocaleMonthShort 0 (Time 1706313600000) = ''Jan''"
    "toLocaleMonthShort 0 (Time 1706400000000) = ''Jan''"
    "toLocaleMonthShort 0 (Time 1706486400000) = ''Jan''"
    "toLocaleMonthShort 0 (Time 1706572800000) = ''Jan''"
    "toLocaleMonthShort 0 (Time 1706659200000) = ''Jan''"
    "toLocaleMonthShort 0 (Time 1706745600000) = ''Feb''"
    by (simp_all add: date_eval)
  have "labelList 0 q
     = [\<lparr> month = ''Jan'', monthLabel.x = Fin 0 \<rparr>, \<lparr> month = ''Feb'', monthLabel.x = Fin 18 \<rparr>]"
    using month_labels_by_month_name [of 0 q]
    by (simp add: visibleCells_def c s l firstOfMonth_def labelOf_def cellMonth_def n
        upt_conv_Cons)
  moreover have "monthLabels 0 q = Inr (labelList 0 q)"
    using month_labels_by_month_name [of 0 q] by simp
  ultimately show ?thesis by (simp only: q_def)
qed

text \<open>
  C1, as stated, fails for a range that reaches the same month of a later year.  From
  Sunday 2023-01-01 to 2024-01-01 no cell is padding; cell 0 lies in January 2023 and
  cell 365, at offset 936, in January 2024: two calendar months.  The only label named
  Jan is the one at offset 0, so January 2024 has no entry.
\<close>

theorem month_labels_counterexample:
  "yearMonth 0 (date (cellList 0 \<lparr> data = [], startDate = Time 1672531200000,
        endDate = Time 1704067200000, baseColor = ''#239a3b'', cellSize = Fin 14,
        cellSpacing = Fin 4, weekStart = 0 \<rparr> ! 0))
     = Some (2023, 1) \<and>
   yearMonth 0 (date (cellList 0 \<lparr> data = [], startDate = Time 1672531200000,
        endDate = Time 1704067200000, baseColor = ''#239a3b'', cellSize = Fin 14,
        cellSpacing = Fin 4, weekStart = 0 \<rparr> ! 365))
     = Some (2024, 1) \<and>
   cellList 0 \<lparr> data = [], startDate = Time 1672531200000, endDate = Time 1704067200000,
        baseColor = ''#239a3b'', cellSize = Fin 14, cellSpacing = Fin 4, weekStart = 0 \<rparr> ! 0
     \<in> set (visibleCells 0 \<lparr> data = [], startDate = Time 1672531200000,
        endDate = Time 1704067200000, baseColor = ''#239a3b'', cellSize = Fin 14,
        cellSpacing = Fin 4, weekStart = 0 \<rparr>) \<and>
   cellList 0 \<lparr> data = [], startDate = Time 1672531200000, endDate = Time 1704067200000,
        baseColor = ''#239a3b'', cellSize = Fin 14, cellSpacing = Fin 4, weekStart = 0 \<rparr> ! 365
     \<in> set (visibleCells 0 \<lparr> data = [], startDate = Time 1672531200000,
        endDate = Time 1704067200000, baseColor = ''#239a3b'', cellSize = Fin 14,
        cellSpacing = Fin 4, weekStart = 0 \<rparr>) \<and>
   cell.x (cellList 0 \<lparr> data = [], startDate = Time 1672531200000,
        endDate = Time 1704067200000, baseColor = ''#239a3b'', cellSize = Fin 14,
        cellSpacing = Fin 4, weekStart = 0 \<rparr> ! 365)
     = Fin 936 \<and>
   cells 0 \<lparr> data = [], startDate = Time 1672531200000, endDate = Time 1704067200000,
        baseColor = ''#239a3b'', cellSize = Fin 14, cellSpacing = Fin 4, weekStart = 0 \<rparr>
     = Inr (cellList 0 \<lparr> data = [], startDate = Time 1672531200000,
        endDate = Time 1704067200000, baseColor = ''#239a3b'', cellSize = Fin 14,
        cellSpacing = Fin 4, weekStart = 0 \<rparr>) \<and>
   monthLabels 0 \<lparr> data = [], startDate = Time 1672531200000, endDate = Time 1704067200000,
        baseColor = ''#239a3b'', cellSize = Fin 14, cellSpacing = Fin 4, weekStart = 0 \<rparr>
     = Inr (labelList 0 \<lparr> data = [], startDate = Time 1672531200000,
        endDate = Time 1704067200000, baseColor = ''#239a3b'', cellSize = Fin 14,
        cellSpacing = Fin 4, weekStart = 0 \<rparr>) \<and>
   filter (\<lambda>l. month l = ''Jan'')
     (labelList 0 \<lparr> data = [], startDate = Time 1672531200000, endDate = Time 1704067200000,
        baseColor = ''#239a3b'', cellSize = Fin 14, cellSpacing = Fin 4, weekStart = 0 \<rparr>)
     = [\<lparr> month = ''Jan'', monthLabel.x = Fin 0 \<rparr>]"
proof -
  define q where "q = \<lparr> data = [], startDate = Time 1672531200000,
        endDate = Time 1704067200000, baseColor = ''#239a3b'', cellSize = Fin 14,
        cellSpacing = Fin 4, weekStart = 0 \<rparr>"
  have f: "data q = []" "cellSize q = Fin 14" "cellSpacing q = Fin 4"
    and s: "startDate q = Time 1672531200000" by (simp_all add: q_def)
  have a: "alignedStart 0 q = Time 1672531200000" by (simp add: q_def date_eval)
  have v: "timeValue (Time 1672531200000) = Some 1672531200000" by (simp add: date_eval)
  have t: "totalDays 0 q = Some 366" unfolding totalDays_def a by (simp add: q_def date_eval)
  note m = makeCell_Inr [OF t, of 1672531200000, unfolded a, OF v]
  note n = cellList_nth [OF t, of 1672531200000, unfolded a, OF v]
  have c0: "cellList 0 q ! 0
      = \<lparr> date = Time 1672531200000, count = Fin 0, cell.x = Fin 0, y = Fin 0 \<rparr>"
    using n [of 0] m [of 0] by (simp add: msPerDay_def jsRem_def lookupCount_def f round_eval)
  have c365: "cellList 0 q ! 365
      = \<lparr> date = Time 1704067200000, count = Fin 0, cell.x = Fin 936, y = Fin 18 \<rparr>"
    using n [of 365] m [of 365]
    by (simp add: msPerDay_def jsRem_def lookupCount_def f round_eval)
  have ym: "yearMonth 0 (Time 1672531200000) = Some (2023, 1)"
    "yearMonth 0 (Time 1704067200000) = Some (2024, 1)"
    by (simp_all add: date_eval)
  have d: "addDays (Time 1672531200000) (Some 0) = Time 1672531200000"
    "addDays (Time 1672531200000) (Some 365) = Time 1704067200000"
    by (simp_all add: date_eval)
  have l: "\<not> dateLess (Time 1672531200000) (Time 1672531200000)"
    "\<not> dateLess (Time 1704067200000) (Time 1672531200000)"
    by (simp_all add: dateLess_def timeValue_def maxTime_def)
  have v0: "cellList 0 q ! nat 0 \<in> set (visibleCells 0 q)"
    by (rule visible_cell [OF t]) (simp_all add: a s d l)
  have v365: "cellList 0 q ! nat 365 \<in> set (visibleCells 0 q)"
    by (rule visible_cell [OF t]) (simp_all add: a s d l)
  have l0: "labelOf 0 (cellList 0 q ! 0) = \<lparr> month = ''Jan'', monthLabel.x = Fin 0 \<rparr>"
    unfolding c0 by (simp add: labelOf_def cellMonth_def) (simp add: date_eval)
  from first_label [OF t, unfolded a s] l(1) obtain rest
    where r: "labelList 0 q = \<lparr> month = ''Jan'', monthLabel.x = Fin 0 \<rparr> # rest"
    by (auto simp: l0)
  have "distinct (map month (\<lparr> month = ''Jan'', monthLabel.x = Fin 0 \<rparr> # rest))"
    using labelList_distinct [of 0 q] by (simp only: r)
  then have "filter (\<lambda>k. month k = month \<lparr> month = ''Jan'', monthLabel.x = Fin 0 \<rparr>)
               (\<lparr> month = ''Jan'', monthLabel.x = Fin 0 \<rparr> # rest)
             = [\<lparr> month = ''Jan'', monthLabel.x = Fin 0 \<rparr>]"
    by (rule only_one_label_per_name)
  then have j: "filter (\<lambda>l. month l = ''Jan'') (labelList 0 q)
                = [\<lparr> month = ''Jan'', monthLabel.x = Fin 0 \<rparr>]"
    by (simp add: r)
  have y: "yearMonth 0 (date (cellList 0 q ! 0)) = Some (2023, 1)"
    "yearMonth 0 (date (cellList 0 q ! 365)) = Some (2024, 1)"
    "cell.x (cellList 0 q ! 365) = Fin 936"
    by (simp_all add: c0 c365 ym)
  from v0 v365 have w: "cellList 0 q ! 0 \<in> set (visibleCells 0 q)"
    "cellList 0 q ! 365 \<in> set (visibleCells 0 q)" by simp_all
  from y w j cells_complete [of 0 q] monthLabels_complete [of 0 q] show ?thesis
    unfolding q_def [symmetric] by (simp only: simp_thms)
qed

end
